theory Spec2Isabelle
  imports Main "HOL-Library.Sublist"
begin

section \<open>Strings and the regular expressions of the sync adapter\<close>

text \<open>
  A JavaScript string is modelled as a \<^typ>\<open>string\<close>: every \<^typ>\<open>char\<close> stands for one
  UTF-16 code unit in the range 0..255. The regular expressions of \<^verbatim>\<open>dragDrop.js\<close> are
  translated one by one into the string functions below.
\<close>

abbreviation LF :: char where "LF \<equiv> CHR 0x0A"
abbreviation CR :: char where "CR \<equiv> CHR 0x0D"
abbreviation DQ :: char where "DQ \<equiv> CHR 0x22"
abbreviation BSL :: char where "BSL \<equiv> CHR 0x5C"

text \<open>
  \<open>find_sub p s\<close> splits \<open>s\<close> at the leftmost occurrence of \<open>p\<close>: the text before it
  and the text after it.
\<close>

fun find_sub :: "string \<Rightarrow> string \<Rightarrow> (string \<times> string) option" where
  "find_sub p [] = (if p = [] then Some ([], []) else None)"
| "find_sub p (c # cs) =
     (if prefix p (c # cs) then Some ([], drop (length p) (c # cs))
      else map_option (\<lambda>(b, a). (c # b, a)) (find_sub p cs))"

definition is_digit :: "char \<Rightarrow> bool" where
  "is_digit c = (let n = (of_char c :: nat) in 48 \<le> n \<and> n \<le> 57)"

text \<open>The class \<^verbatim>\<open>\w\<close>: \<^verbatim>\<open>[A-Za-z0-9_]\<close>.\<close>

definition is_word_char :: "char \<Rightarrow> bool" where
  "is_word_char c =
     (let n = (of_char c :: nat)
      in (48 \<le> n \<and> n \<le> 57) \<or> (65 \<le> n \<and> n \<le> 90) \<or> n = 95 \<or> (97 \<le> n \<and> n \<le> 122))"

text \<open>The class \<^verbatim>\<open>[\d-]\<close>.\<close>

definition is_date_char :: "char \<Rightarrow> bool" where
  "is_date_char c = (is_digit c \<or> c = CHR ''-'')"

text \<open>
  The line terminators that \<^verbatim>\<open>.\<close> does not match, and the white space that
  \<^verbatim>\<open>trim()\<close> removes, as far as they lie in the 8-bit range.
\<close>

definition is_line_terminator :: "char \<Rightarrow> bool" where
  "is_line_terminator c = (c = LF \<or> c = CR)"

definition is_js_space :: "char \<Rightarrow> bool" where
  "is_js_space c = ((of_char c :: nat) \<in> {9, 10, 11, 12, 13, 32, 160})"

definition trim :: "string \<Rightarrow> string" where
  "trim s = rev (dropWhile is_js_space (rev (dropWhile is_js_space s)))"

text \<open>
  \<^verbatim>\<open>String.prototype.toLowerCase\<close> on the 8-bit range: the ASCII capitals and the
  capitals of Latin-1 (U+00C0..U+00DE without the multiplication sign U+00D7).
\<close>

definition lower_char :: "char \<Rightarrow> char" where
  "lower_char c =
     (let n = (of_char c :: nat)
      in if (65 \<le> n \<and> n \<le> 90) \<or> (192 \<le> n \<and> n \<le> 222 \<and> n \<noteq> 215)
         then char_of (n + 32) else c)"

definition toLowerCase :: "string \<Rightarrow> string" where
  "toLowerCase s = map lower_char s"

text \<open>
  \<^verbatim>\<open>body.match(/<!-- pixelKanban metadata:\n([\s\S]*?)\n-->/)\<close>: the leftmost opening
  marker, then the lazy group up to the first closing marker after it; the result is the
  captured group. (If no closing marker follows the leftmost opening marker, none follows
  a later one either.)
\<close>

definition metadata_open :: string where
  "metadata_open = ''<!-- pixelKanban metadata:'' @ [LF]"

definition metadata_close :: string where
  "metadata_close = LF # ''-->''"

definition match_metadata :: "string \<Rightarrow> string option" where
  "match_metadata body =
     (case find_sub metadata_open body of
        None \<Rightarrow> None
      | Some (_, rest) \<Rightarrow> map_option fst (find_sub metadata_close rest))"

text \<open>
  A literal followed by a greedy, non-empty run of a character class, as in
  \<^verbatim>\<open>/\*\*Priority:\*\* (\w+)/\<close> and \<^verbatim>\<open>/\*\*Due Date:\*\* ([\d-]+)/\<close>: the leftmost
  position where the literal is followed by at least one character of the class; the result
  is the captured run.
\<close>

fun match_after :: "string \<Rightarrow> (char \<Rightarrow> bool) \<Rightarrow> string \<Rightarrow> string option" where
  "match_after lit cls [] = None"
| "match_after lit cls (c # cs) =
     (if prefix lit (c # cs) \<and> takeWhile cls (drop (length lit) (c # cs)) \<noteq> []
      then Some (takeWhile cls (drop (length lit) (c # cs)))
      else match_after lit cls cs)"

definition match_priority :: "string \<Rightarrow> string option" where
  "match_priority body = match_after ''**Priority:** '' is_word_char body"

definition match_dueDate :: "string \<Rightarrow> string option" where
  "match_dueDate body = match_after ''**Due Date:** '' is_date_char body"

text \<open>
  \<^verbatim>\<open>body.replace(/<!--[\s\S]*?-->/, '')\<close>: without the \<^verbatim>\<open>g\<close> flag only the leftmost
  comment is removed.
\<close>

definition remove_first_comment :: "string \<Rightarrow> string" where
  "remove_first_comment body =
     (case find_sub ''<!--'' body of
        None \<Rightarrow> body
      | Some (before, rest) \<Rightarrow>
          (case find_sub ''-->'' rest of
             None \<Rightarrow> body
           | Some (_, after) \<Rightarrow> before @ after))"

text \<open>
  \<^verbatim>\<open>.replace(/\*\*.*?\*\*/g, '')\<close>. \<open>match_bold s\<close> is the text that follows a match
  anchored at the start of \<open>s\<close>: two stars, the shortest run without a line terminator,
  two stars. \<open>remove_bold\<close> scans from the left, drops every match and goes on behind it.
\<close>

definition match_bold :: "string \<Rightarrow> string option" where
  "match_bold s =
     (if prefix ''**'' s then
        (case find_sub ''**'' (drop 2 s) of
           None \<Rightarrow> None
         | Some (mid, rest) \<Rightarrow> if list_ex is_line_terminator mid then None else Some rest)
      else None)"

lemma find_sub_length:
  "find_sub p s = Some (b, a) \<Longrightarrow> length b + length p + length a = length s"
proof (induction s arbitrary: b)
  case Nil
  then show ?case by (simp split: if_splits)
next
  case (Cons c cs)
  show ?case
  proof (cases "prefix p (c # cs)")
    case True
    then have "length p \<le> length (c # cs)" by (rule prefix_length_le)
    with True Cons.prems show ?thesis by auto
  next
    case False
    with Cons.prems obtain b' where "find_sub p cs = Some (b', a)" and "b = c # b'"
      by auto
    with Cons.IH show ?thesis by auto
  qed
qed

lemma match_bold_shorter: "match_bold s = Some rest \<Longrightarrow> length rest < length s"
  by (auto simp: match_bold_def split: if_splits option.splits dest!: find_sub_length)

function remove_bold :: "string \<Rightarrow> string" where
  "remove_bold [] = []"
| "remove_bold (c # cs) =
     (case match_bold (c # cs) of
        Some rest \<Rightarrow> remove_bold rest
      | None \<Rightarrow> c # remove_bold cs)"
  by pat_completeness auto
termination
  by (relation "measure length") (auto dest: match_bold_shorter)

section \<open>Labels and status\<close>

record label =
  l_name :: string
  l_color :: string

text \<open>
  \<^verbatim>\<open>GitHubBoards.getStatusLabel\<close> (dragDrop.js): \<^verbatim>\<open>mapping[status] || 'backlog'\<close> on an
  object literal. The literal inherits the properties of \<^verbatim>\<open>Object.prototype\<close>, so for a
  status that names one of them the lookup gives that property, a function or an object,
  which is truthy and is returned as it is: \<open>None\<close> stands for such a value.
\<close>

definition object_prototype_keys :: "string list" where
  "object_prototype_keys =
     [''constructor'', ''hasOwnProperty'', ''isPrototypeOf'', ''propertyIsEnumerable'',
      ''toLocaleString'', ''toString'', ''valueOf'', ''__proto__'',
      ''__defineGetter__'', ''__defineSetter__'', ''__lookupGetter__'', ''__lookupSetter__'']"

definition getStatusLabel :: "string \<Rightarrow> string option" where
  "getStatusLabel status =
     (if status = ''backlog'' then Some ''backlog''
      else if status = ''todo'' then Some ''to do''
      else if status = ''in-progress'' then Some ''in progress''
      else if status = ''done'' then Some ''done''
      else if status \<in> set object_prototype_keys then None
      else Some ''backlog'')"

text \<open>\<^verbatim>\<open>GitHubBoards.getKanbanStatus\<close> (dragDrop.js).\<close>

definition getKanbanStatus :: "label list \<Rightarrow> string" where
  "getKanbanStatus labels =
     (let labelNames = map (\<lambda>l. toLowerCase (l_name l)) labels
      in if ''done'' \<in> set labelNames then ''done''
         else if ''in progress'' \<in> set labelNames then ''in-progress''
         else if ''to do'' \<in> set labelNames then ''todo''
         else ''backlog'')"

section \<open>JSON values, \<^verbatim>\<open>JSON.stringify\<close> and \<^verbatim>\<open>JSON.parse\<close>\<close>

text \<open>
  The values that \<^verbatim>\<open>JSON.parse\<close> returns. A number is an exact decimal: \<open>JNum n\<close> is
  the integer \<open>n\<close>, and \<open>JDec m k\<close> (with \<open>k > 0\<close> and \<open>m\<close> not divisible by 10) is
  \<open>m / 10^k\<close>; the rounding of IEEE doubles is not modelled, and numbers are printed in
  fixed notation, as JavaScript prints those between \<open>10^-6\<close> and \<open>10^21\<close>. An object is
  the list of its properties in insertion order.
\<close>

datatype json =
    JNull
  | JBool bool
  | JNum int
  | JDec int nat
  | JStr string
  | JArr "json list"
  | JObj "(string \<times> json) list"

subsection \<open>Printing numbers\<close>

definition digit_char :: "int \<Rightarrow> char" where
  "digit_char d = char_of (48 + d)"

text \<open>The decimal digits of a number that is not negative.\<close>

function show_digits :: "int \<Rightarrow> string" where
  "show_digits n = (if n < 10 then [digit_char n] else show_digits (n div 10) @ [digit_char (n mod 10)])"
  by pat_completeness auto
termination
  by (relation "measure nat") auto

declare show_digits.simps [simp del]

definition show_nat :: "nat \<Rightarrow> string" where
  "show_nat n = show_digits (int n)"

definition show_int :: "int \<Rightarrow> string" where
  "show_int i = (if i < 0 then CHR ''-'' # show_digits (- i) else show_digits i)"

text \<open>A decimal with \<open>k\<close> fractional digits in fixed notation, as in \<^verbatim>\<open>0.005\<close>.\<close>

definition show_dec :: "int \<Rightarrow> nat \<Rightarrow> string" where
  "show_dec m k =
     (let a = \<bar>m\<bar>;
          frac = show_digits (a mod 10 ^ k)
      in (if m < 0 then [CHR ''-''] else []) @ show_digits (a div 10 ^ k) @ [CHR ''.'']
         @ replicate (k - length frac) (CHR ''0'') @ frac)"

subsection \<open>\<^verbatim>\<open>JSON.stringify\<close>\<close>

definition hex_char :: "nat \<Rightarrow> char" where
  "hex_char d = (if d < 10 then char_of (48 + d) else char_of (87 + d))"

text \<open>\<^verbatim>\<open>QuoteJSONString\<close>: the escapes of one code unit.\<close>

definition quote_char :: "char \<Rightarrow> string" where
  "quote_char c =
     (let n = (of_char c :: nat)
      in if c = DQ then [BSL, DQ]
         else if c = BSL then [BSL, BSL]
         else if n = 8 then [BSL, CHR ''b'']
         else if n = 12 then [BSL, CHR ''f'']
         else if n = 10 then [BSL, CHR ''n'']
         else if n = 13 then [BSL, CHR ''r'']
         else if n = 9 then [BSL, CHR ''t'']
         else if n < 32 then [BSL, CHR ''u'', CHR ''0'', CHR ''0'', hex_char (n div 16), hex_char (n mod 16)]
         else [c])"

definition quote_string :: "string \<Rightarrow> string" where
  "quote_string s = DQ # concat (map quote_char s) @ [DQ]"

fun join_with :: "string \<Rightarrow> string list \<Rightarrow> string" where
  "join_with sep [] = []"
| "join_with sep [x] = x"
| "join_with sep (x # y # ys) = x @ sep @ join_with sep (y # ys)"

fun JSON_stringify :: "json \<Rightarrow> string" where
  "JSON_stringify JNull = ''null''"
| "JSON_stringify (JBool b) = (if b then ''true'' else ''false'')"
| "JSON_stringify (JNum n) = show_int n"
| "JSON_stringify (JDec m k) = show_dec m k"
| "JSON_stringify (JStr s) = quote_string s"
| "JSON_stringify (JArr xs) = ''['' @ join_with '','' (map JSON_stringify xs) @ '']''"
| "JSON_stringify (JObj kvs) =
     ''{'' @ join_with '','' (map (\<lambda>kv. quote_string (fst kv) @ '':'' @ JSON_stringify (snd kv)) kvs) @ ''}''"

subsection \<open>\<^verbatim>\<open>JSON.parse\<close>\<close>

text \<open>
  A recursive-descent parser for the JSON grammar (ECMA-404). Every function returns the
  value it read and the text that follows it; \<open>None\<close> is the \<^verbatim>\<open>SyntaxError\<close>.
\<close>

definition is_json_ws :: "char \<Rightarrow> bool" where
  "is_json_ws c = ((of_char c :: nat) \<in> {32, 9, 10, 13})"

definition skip_ws :: "string \<Rightarrow> string" where
  "skip_ws s = dropWhile is_json_ws s"

definition hex_val :: "char \<Rightarrow> nat option" where
  "hex_val c =
     (let n = (of_char c :: nat)
      in if 48 \<le> n \<and> n \<le> 57 then Some (n - 48)
         else if 97 \<le> n \<and> n \<le> 102 then Some (n - 87)
         else if 65 \<le> n \<and> n \<le> 70 then Some (n - 55)
         else None)"

text \<open>The one-letter escapes that may follow a backslash.\<close>

definition unescape :: "char \<Rightarrow> char option" where
  "unescape e =
     (if e = DQ then Some DQ
      else if e = BSL then Some BSL
      else if e = CHR ''/'' then Some (CHR ''/'')
      else if e = CHR ''b'' then Some (CHR 0x08)
      else if e = CHR ''f'' then Some (CHR 0x0C)
      else if e = CHR ''n'' then Some LF
      else if e = CHR ''r'' then Some CR
      else if e = CHR ''t'' then Some (CHR 0x09)
      else None)"

text \<open>
  The four hexadecimal digits of a \<^verbatim>\<open>\uXXXX\<close> escape. A code unit above U+00FF lies
  outside the 8-bit alphabet of \<^typ>\<open>string\<close>: the escape is still accepted, and
  \<^const>\<open>char_of\<close> keeps its low byte.
\<close>

definition unicode_escape :: "char \<Rightarrow> char \<Rightarrow> char \<Rightarrow> char \<Rightarrow> char option" where
  "unicode_escape h1 h2 h3 h4 =
     (case (hex_val h1, hex_val h2, hex_val h3, hex_val h4) of
        (Some a, Some b, Some c, Some d) \<Rightarrow> Some (char_of (((a * 16 + b) * 16 + c) * 16 + d))
      | _ \<Rightarrow> None)"

text \<open>The characters of a string literal after its opening quote, up to the closing quote.\<close>

fun parse_chars :: "string \<Rightarrow> (string \<times> string) option" where
  "parse_chars [] = None"
| "parse_chars (c # cs) =
     (if c = DQ then Some ([], cs)
      else if c = BSL then
        (case cs of
           [] \<Rightarrow> None
         | e # cs1 \<Rightarrow>
             if e = CHR ''u'' then
               (case cs1 of
                  h1 # h2 # h3 # h4 # cs2 \<Rightarrow>
                    (case unicode_escape h1 h2 h3 h4 of
                       None \<Rightarrow> None
                     | Some u \<Rightarrow> map_option (apfst ((#) u)) (parse_chars cs2))
                | _ \<Rightarrow> None)
             else
               (case unescape e of
                  None \<Rightarrow> None
                | Some u \<Rightarrow> map_option (apfst ((#) u)) (parse_chars cs1)))
      else if (of_char c :: nat) < 32 then None
      else map_option (apfst ((#) c)) (parse_chars cs))"

text \<open>Numbers: \<^verbatim>\<open>-? (0 | [1-9][0-9]*) (. [0-9]+)? ([eE] [+-]? [0-9]+)?\<close>.\<close>

definition digits_val :: "string \<Rightarrow> int" where
  "digits_val ds = foldl (\<lambda>a c. 10 * a + ((of_char c :: int) - 48)) 0 ds"

fun norm_dec :: "int \<Rightarrow> nat \<Rightarrow> json" where
  "norm_dec m 0 = JNum m"
| "norm_dec m (Suc k) = (if m mod 10 = 0 then norm_dec (m div 10) k else JDec m (Suc k))"

definition parse_int_part :: "string \<Rightarrow> (string \<times> string) option" where
  "parse_int_part s =
     (case s of
        [] \<Rightarrow> None
      | c # r \<Rightarrow>
          if c = CHR ''0'' then Some ([c], r)
          else if is_digit c then Some (takeWhile is_digit s, dropWhile is_digit s)
          else None)"

definition parse_frac_part :: "string \<Rightarrow> (string \<times> string) option" where
  "parse_frac_part s =
     (case s of
        c # r \<Rightarrow>
          if c = CHR ''.'' then
            (if takeWhile is_digit r = [] then None
             else Some (takeWhile is_digit r, dropWhile is_digit r))
          else Some ([], s)
      | [] \<Rightarrow> Some ([], s))"

definition parse_exp_digits :: "bool \<Rightarrow> string \<Rightarrow> (int \<times> string) option" where
  "parse_exp_digits neg s =
     (if takeWhile is_digit s = [] then None
      else Some ((if neg then - digits_val (takeWhile is_digit s)
                  else digits_val (takeWhile is_digit s)), dropWhile is_digit s))"

definition parse_exp_part :: "string \<Rightarrow> (int \<times> string) option" where
  "parse_exp_part s =
     (case s of
        c # r \<Rightarrow>
          if c = CHR ''e'' \<or> c = CHR ''E'' then
            (case r of
               d # r' \<Rightarrow>
                 if d = CHR ''+'' then parse_exp_digits False r'
                 else if d = CHR ''-'' then parse_exp_digits True r'
                 else parse_exp_digits False r
             | [] \<Rightarrow> None)
          else Some (0, s)
      | [] \<Rightarrow> Some (0, s))"

definition parse_unsigned :: "bool \<Rightarrow> string \<Rightarrow> (json \<times> string) option" where
  "parse_unsigned neg s =
     (case parse_int_part s of
        None \<Rightarrow> None
      | Some (ds, r1) \<Rightarrow>
          (case parse_frac_part r1 of
             None \<Rightarrow> None
           | Some (fs, r2) \<Rightarrow>
               (case parse_exp_part r2 of
                  None \<Rightarrow> None
                | Some (e, r3) \<Rightarrow>
                    (let m = (if neg then - digits_val (ds @ fs) else digits_val (ds @ fs));
                         sc = e - int (length fs)
                     in Some (if 0 \<le> sc then JNum (m * 10 ^ nat sc) else norm_dec m (nat (- sc)), r3)))))"

definition parse_number :: "string \<Rightarrow> (json \<times> string) option" where
  "parse_number s =
     (case s of
        [] \<Rightarrow> None
      | c # r \<Rightarrow> if c = CHR ''-'' then parse_unsigned True r else parse_unsigned False s)"

text \<open>
  \<^verbatim>\<open>JSON.parse\<close> defines the properties of an object in source order; a repeated key
  keeps its first position and takes the last value.
\<close>

fun obj_set :: "(string \<times> json) list \<Rightarrow> string \<Rightarrow> json \<Rightarrow> (string \<times> json) list" where
  "obj_set [] k v = [(k, v)]"
| "obj_set ((k', v') # kvs) k v = (if k' = k then (k, v) # kvs else (k', v') # obj_set kvs k v)"

definition build_object :: "(string \<times> json) list \<Rightarrow> json" where
  "build_object kvs = JObj (foldl (\<lambda>obj kv. obj_set obj (fst kv) (snd kv)) [] kvs)"

lemma skip_ws_length: "length (skip_ws s) \<le> length s"
  by (simp add: skip_ws_def length_dropWhile_le)

lemma skip_ws_Cons_length: "skip_ws s = c # r \<Longrightarrow> length r < length s"
  using skip_ws_length [of s] by simp

lemma parse_chars_length: "parse_chars s = Some (k, r) \<Longrightarrow> length r < length s"
proof (induction s arbitrary: k rule: parse_chars.induct)
  case 1
  then show ?case by simp
next
  case (2 c cs)
  then show ?case
    by (fastforce split: if_splits list.splits option.splits)
qed

text \<open>
  Values, array elements and object members. The tests \<open>length r < length cs\<close> on the text
  left by a nested value always succeed (lemma \<open>parse_value_length\<close> below); they make
  the recursion visibly well-founded.
\<close>

function parse_value :: "string \<Rightarrow> (json \<times> string) option"
  and parse_elems :: "string \<Rightarrow> (json list \<times> string) option"
  and parse_membs :: "string \<Rightarrow> ((string \<times> json) list \<times> string) option"
where
  "parse_value cs =
     (case skip_ws cs of
        [] \<Rightarrow> None
      | c # r \<Rightarrow>
          if c = CHR ''['' then
            (case skip_ws r of
               [] \<Rightarrow> None
             | d # r' \<Rightarrow>
                 if d = CHR '']'' then Some (JArr [], r')
                 else map_option (apfst JArr) (parse_elems r))
          else if c = CHR ''{'' then
            (case skip_ws r of
               [] \<Rightarrow> None
             | d # r' \<Rightarrow>
                 if d = CHR ''}'' then Some (JObj [], r')
                 else map_option (apfst build_object) (parse_membs r))
          else if c = DQ then map_option (apfst JStr) (parse_chars r)
          else if prefix ''true'' (c # r) then Some (JBool True, drop 4 (c # r))
          else if prefix ''false'' (c # r) then Some (JBool False, drop 5 (c # r))
          else if prefix ''null'' (c # r) then Some (JNull, drop 4 (c # r))
          else parse_number (c # r))"
| "parse_elems cs =
     (case parse_value cs of
        None \<Rightarrow> None
      | Some (v, r) \<Rightarrow>
          if length r < length cs then
            (case skip_ws r of
               [] \<Rightarrow> None
             | d # r' \<Rightarrow>
                 if d = CHR '','' then map_option (apfst ((#) v)) (parse_elems r')
                 else if d = CHR '']'' then Some ([v], r')
                 else None)
          else None)"
| "parse_membs cs =
     (case skip_ws cs of
        [] \<Rightarrow> None
      | q # r0 \<Rightarrow>
          if q \<noteq> DQ then None
          else
            (case parse_chars r0 of
               None \<Rightarrow> None
             | Some (k, r1) \<Rightarrow>
                 (case skip_ws r1 of
                    [] \<Rightarrow> None
                  | col # r2 \<Rightarrow>
                      if col \<noteq> CHR '':'' then None
                      else
                        (case parse_value r2 of
                           None \<Rightarrow> None
                         | Some (v, r3) \<Rightarrow>
                             if length r3 < length r2 then
                               (case skip_ws r3 of
                                  [] \<Rightarrow> None
                                | d # r4 \<Rightarrow>
                                    if d = CHR '','' then map_option (apfst ((#) (k, v))) (parse_membs r4)
                                    else if d = CHR ''}'' then Some ([(k, v)], r4)
                                    else None)
                             else None))))"
  by pat_completeness auto
termination
proof (relation "measures [\<lambda>x. case x of Inl cs \<Rightarrow> length cs | Inr (Inl cs) \<Rightarrow> length cs | Inr (Inr cs) \<Rightarrow> length cs,
                           \<lambda>x. case x of Inl cs \<Rightarrow> 0 | Inr y \<Rightarrow> Suc 0]", goal_cases)
  case 1
  then show ?case by simp
next
  case (2 cs c r d r')
  then show ?case by (auto dest: skip_ws_Cons_length)
next
  case (3 cs c r d r')
  then show ?case by (auto dest: skip_ws_Cons_length)
next
  case (4 cs)
  then show ?case by simp
next
  case (5 cs x v r d r')
  then show ?case by (auto dest: skip_ws_Cons_length)
next
  case (6 cs q r0 x k r1 col r2)
  then show ?case by (auto dest!: skip_ws_Cons_length parse_chars_length)
next
  case (7 cs q r0 x k r1 col r2 y v r3 d r4)
  then show ?case by (auto dest!: skip_ws_Cons_length parse_chars_length)
qed

declare parse_value.simps [simp del] parse_elems.simps [simp del] parse_membs.simps [simp del]

datatype js_error = Error string | TypeError | SyntaxError

text \<open>
  \<^verbatim>\<open>JSON.parse(text)\<close>: one value, white space around it, nothing else; otherwise it
  throws a \<^verbatim>\<open>SyntaxError\<close>.
\<close>

definition JSON_parse :: "string \<Rightarrow> js_error + json" where
  "JSON_parse s =
     (case parse_value s of
        None \<Rightarrow> Inl SyntaxError
      | Some (v, r) \<Rightarrow> if skip_ws r = [] then Inr v else Inl SyntaxError)"

section \<open>JavaScript values in the task model\<close>

text \<open>\<^verbatim>\<open>ToBoolean\<close> and \<^verbatim>\<open>ToString\<close> on the values above, and the operator \<^verbatim>\<open>||\<close>.\<close>

fun js_truthy :: "json \<Rightarrow> bool" where
  "js_truthy JNull = False"
| "js_truthy (JBool b) = b"
| "js_truthy (JNum n) = (n \<noteq> 0)"
| "js_truthy (JDec m k) = (m \<noteq> 0)"
| "js_truthy (JStr s) = (s \<noteq> [])"
| "js_truthy (JArr xs) = True"
| "js_truthy (JObj kvs) = True"

fun ToString :: "json \<Rightarrow> string" where
  "ToString JNull = ''null''"
| "ToString (JBool b) = (if b then ''true'' else ''false'')"
| "ToString (JNum n) = show_int n"
| "ToString (JDec m k) = show_dec m k"
| "ToString (JStr s) = s"
| "ToString (JArr xs) = join_with '','' (map (\<lambda>x. if x = JNull then [] else ToString x) xs)"
| "ToString (JObj kvs) = ''[object Object]''"

definition js_or :: "json \<Rightarrow> json \<Rightarrow> json" where
  "js_or a b = (if js_truthy a then a else b)"

text \<open>
  Reading one of the properties \<^verbatim>\<open>description\<close>, \<^verbatim>\<open>priority\<close>, \<^verbatim>\<open>dueDate\<close>,
  \<^verbatim>\<open>comments\<close>, \<^verbatim>\<open>attachments\<close> of a parsed value: \<^verbatim>\<open>null\<close> has no properties
  (a \<^verbatim>\<open>TypeError\<close>), an object has the properties it was parsed with, and every other
  value has none of these names (\<open>None\<close> is \<^verbatim>\<open>undefined\<close>).
\<close>

definition js_get :: "json \<Rightarrow> string \<Rightarrow> js_error + json option" where
  "js_get v k =
     (case v of
        JNull \<Rightarrow> Inl TypeError
      | JObj kvs \<Rightarrow> Inr (map_of kvs k)
      | _ \<Rightarrow> Inr None)"

text \<open>\<^verbatim>\<open>x || d\<close> for a property that may be \<^verbatim>\<open>undefined\<close>.\<close>

definition or_default :: "json option \<Rightarrow> json \<Rightarrow> json" where
  "or_default x d = (case x of None \<Rightarrow> d | Some v \<Rightarrow> js_or v d)"

text \<open>
  A user reference as the code holds it: a string (the value of a form field, or a GitHub
  login after a pull) or a number.
\<close>

datatype idval = IdStr string | IdNum int

fun id_truthy :: "idval \<Rightarrow> bool" where
  "id_truthy (IdStr s) = (s \<noteq> [])"
| "id_truthy (IdNum n) = (n \<noteq> 0)"

section \<open>Tasks and issues\<close>

text \<open>
  A task as \<^verbatim>\<open>KanbanBoard.createTask\<close> and \<^verbatim>\<open>GitHubBoards.pullBoard\<close> build it. The five
  fields that travel in the metadata block hold whatever \<^verbatim>\<open>JSON.parse\<close> returned for them.
\<close>

record task =
  task_id :: int
  title :: string
  description :: json
  status :: string
  priority :: json
  assignee :: idval
  dueDate :: json
  comments :: json
  attachments :: json
  createdAt :: string
  updatedAt :: string
  githubIssueNumber :: "nat option"
  githubUrl :: "string option"

text \<open>An issue of the REST API, with the fields the adapter reads.\<close>

record issue =
  i_number :: nat
  i_title :: string
  i_body :: "string option"
  i_labels :: "label list"
  i_assignees :: "string list"
  i_created_at :: string
  i_updated_at :: string
  i_html_url :: string
  i_pull_request :: bool

subsection \<open>The metadata block\<close>

text \<open>\<^verbatim>\<open>GitHubBoards.formatTaskBody\<close> (dragDrop.js).\<close>

definition task_metadata :: "task \<Rightarrow> json" where
  "task_metadata t =
     JObj [(''_pixelKanban'', JBool True),
           (''priority'', priority t),
           (''dueDate'', dueDate t),
           (''description'', description t),
           (''comments'', js_or (comments t) (JArr [])),
           (''attachments'', js_or (attachments t) (JArr []))]"

definition formatTaskBody :: "task \<Rightarrow> string" where
  "formatTaskBody t =
     ToString (js_or (description t) (JStr []))
     @ (if js_truthy (priority t) \<and> priority t \<noteq> JStr ''medium''
        then [LF, LF] @ ''**Priority:** '' @ ToString (priority t) else [])
     @ (if js_truthy (dueDate t)
        then [LF, LF] @ ''**Due Date:** '' @ ToString (dueDate t) else [])
     @ [LF, LF] @ ''<!-- pixelKanban metadata:'' @ [LF] @ JSON_stringify (task_metadata t) @ [LF] @ ''-->''"

text \<open>
  \<^verbatim>\<open>GitHubBoards.parseTaskBody\<close> (dragDrop.js). \<open>parse_fallback\<close> is the code behind the
  \<^verbatim>\<open>try\<close> block; the \<^verbatim>\<open>catch\<close> clause logs a warning and falls through to it.
\<close>

definition parse_fallback :: "string \<Rightarrow> json" where
  "parse_fallback body =
     JObj [(''priority'', JStr (case match_priority body of Some p \<Rightarrow> p | None \<Rightarrow> ''medium'')),
           (''dueDate'', JStr (case match_dueDate body of Some d \<Rightarrow> d | None \<Rightarrow> [])),
           (''description'', JStr (trim (remove_bold (remove_first_comment body))))]"

definition parseTaskBody :: "string option \<Rightarrow> js_error + json" where
  "parseTaskBody body =
     (case body of
        None \<Rightarrow> Inr (JObj [])
      | Some b \<Rightarrow>
          if b = [] then Inr (JObj [])
          else
            (case match_metadata b of
               Some m \<Rightarrow>
                 (case JSON_parse m of
                    Inr v \<Rightarrow> Inr v
                  | Inl e \<Rightarrow> Inr (parse_fallback b))
             | None \<Rightarrow> Inr (parse_fallback b)))"

subsection \<open>Issues to tasks\<close>

text \<open>The body of the loop of \<^verbatim>\<open>GitHubBoards.pullBoard\<close>: one issue, one task.\<close>

definition issue_to_task :: "int \<Rightarrow> issue \<Rightarrow> js_error + task" where
  "issue_to_task n i =
     (case parseTaskBody (i_body i) of
        Inl e \<Rightarrow> Inl e
      | Inr taskData \<Rightarrow>
          (case js_get taskData ''description'' of
             Inl e \<Rightarrow> Inl e
           | Inr d \<Rightarrow>
               (case (js_get taskData ''priority'', js_get taskData ''dueDate'',
                      js_get taskData ''comments'', js_get taskData ''attachments'') of
                  (Inr p, Inr dd, Inr cs, Inr as) \<Rightarrow>
                    Inr \<lparr> task_id = n,
                          title = i_title i,
                          description = or_default d (JStr []),
                          status = getKanbanStatus (i_labels i),
                          priority = or_default p (JStr ''medium''),
                          assignee = (case i_assignees i of [] \<Rightarrow> IdStr [] | a # _ \<Rightarrow> IdStr a),
                          dueDate = or_default dd (JStr []),
                          comments = or_default cs (JArr []),
                          attachments = or_default as (JArr []),
                          createdAt = i_created_at i,
                          updatedAt = i_updated_at i,
                          githubIssueNumber = Some (i_number i),
                          githubUrl = Some (i_html_url i) \<rparr>
                | _ \<Rightarrow> Inl TypeError)))"

text \<open>
  The loop itself; \<open>ts\<close> and \<open>n\<close> are its variables \<^verbatim>\<open>tasks\<close> and \<^verbatim>\<open>nextTaskId\<close>.
\<close>

fun pull_loop :: "issue list \<Rightarrow> task list \<Rightarrow> int \<Rightarrow> js_error + (task list \<times> int)" where
  "pull_loop [] ts n = Inr (ts, n)"
| "pull_loop (i # is) ts n =
     (case issue_to_task n i of
        Inl e \<Rightarrow> Inl e
      | Inr t \<Rightarrow> pull_loop is (ts @ [t]) (n + 1))"

section \<open>The stores, the adapter and the remote service\<close>

text \<open>
  A user of \<^verbatim>\<open>UserManager\<close>. \<^verbatim>\<open>createUser\<close> numbers the users; a user loaded from a sheet
  (\<^verbatim>\<open>sheetToBoardFormat\<close>, googleSheets.js) keeps the text of the cell as its id.
\<close>

record user =
  u_id :: idval
  u_name :: string
  u_email :: string
  u_role :: string
  githubUsername :: "string option"

text \<open>\<^verbatim>\<open>KanbanBoard\<close> (kanban.js) and \<^verbatim>\<open>UserManager\<close> (userManager.js): the two stores.\<close>

record board =
  tasks :: "task list"
  nextTaskId :: int

record user_manager =
  users :: "user list"
  nextUserId :: int

record repo =
  owner_login :: string
  repo_name :: string

text \<open>
  The requests that the adapter sends, with what it puts into them (owner, repository,
  and for the two lists the parameters \<^verbatim>\<open>state\<close> and \<^verbatim>\<open>per_page\<close> of the query), and the
  responses: a 2xx response with its JSON, or another status with the \<^verbatim>\<open>message\<close> of its
  JSON.
\<close>

record issue_updates =
  upd_body :: string
  upd_labels :: "string list"
  upd_assignees :: "string list option"

datatype api_request =
    GET_issues string string string nat
  | GET_labels string string nat
  | POST_label string string string string
  | POST_issue string string string string "string list" "string list"
  | PATCH_issue string string nat issue_updates

datatype payload = Issues "issue list" | Labels "label list" | Other

datatype response = Ok payload | Failed nat "string option"

text \<open>
  The remote service is any state machine that answers requests: nothing is assumed about
  what it stores or when it fails.
\<close>

type_synonym 's server = "'s \<Rightarrow> api_request \<Rightarrow> response \<times> 's"

text \<open>
  What the operations below read and write: the fields of \<^verbatim>\<open>GitHubAPI\<close> and
  \<^verbatim>\<open>GitHubBoards\<close>, the globals \<^verbatim>\<open>window.kanbanBoard\<close> and \<^verbatim>\<open>window.userManager\<close>, the
  state of the remote service, and the exchanges with it so far (every call of
  \<^verbatim>\<open>fetch\<close> adds one). Notifications only reach the user interface and are left out.
\<close>

record 's world =
  accessToken :: "string option"
  selectedRepo :: "repo option"
  syncStatus :: string
  lastSync :: "string option"
  kanbanBoard :: "board option"
  userManager :: "user_manager option"
  remote :: 's
  exchanges :: "(api_request \<times> response) list"

text \<open>An operation that may throw: its result or its error, and the world it leaves.\<close>

type_synonym ('a, 's) io = "'s world \<Rightarrow> (js_error + 'a) \<times> 's world"

definition return_io :: "'a \<Rightarrow> ('a, 's) io" where
  "return_io x w = (Inr x, w)"

definition throw_io :: "js_error \<Rightarrow> ('a, 's) io" where
  "throw_io e w = (Inl e, w)"

definition bind_io :: "('a, 's) io \<Rightarrow> ('a \<Rightarrow> ('b, 's) io) \<Rightarrow> ('b, 's) io" where
  "bind_io m f w = (case m w of (Inl e, w') \<Rightarrow> (Inl e, w') | (Inr x, w') \<Rightarrow> f x w')"

subsection \<open>\<^verbatim>\<open>GitHubAPI\<close>\<close>

definition isAuthenticated :: "'s world \<Rightarrow> bool" where
  "isAuthenticated w = (case accessToken w of None \<Rightarrow> False | Some t \<Rightarrow> t \<noteq> [])"

text \<open>
  The error of a response that is not ok:
  \<^verbatim>\<open>new Error(error.message || `GitHub API error: ${response.status}`)\<close>.
\<close>

definition api_error :: "nat \<Rightarrow> string option \<Rightarrow> js_error" where
  "api_error st msg =
     Error (case msg of
              Some m \<Rightarrow> if m \<noteq> [] then m else ''GitHub API error: '' @ show_nat st
            | None \<Rightarrow> ''GitHub API error: '' @ show_nat st)"

text \<open>\<^verbatim>\<open>GitHubAPI.request\<close>.\<close>

definition request :: "'s server \<Rightarrow> api_request \<Rightarrow> (payload, 's) io" where
  "request srv req w =
     (if \<not> isAuthenticated w then (Inl (Error ''Not authenticated with GitHub''), w)
      else
        (case srv (remote w) req of
           (resp, s') \<Rightarrow>
             (case resp of
                Failed st msg \<Rightarrow>
                  (Inl (api_error st msg), w\<lparr>remote := s', exchanges := exchanges w @ [(req, resp)]\<rparr>)
              | Ok p \<Rightarrow>
                  (Inr p, w\<lparr>remote := s', exchanges := exchanges w @ [(req, resp)]\<rparr>))))"

text \<open>
  \<^verbatim>\<open>getRepoIssues\<close> and \<^verbatim>\<open>getRepoLabels\<close>. A 2xx response that is not a list makes
  \<^verbatim>\<open>issues.filter\<close> or \<^verbatim>\<open>existingLabels.forEach\<close> throw a \<^verbatim>\<open>TypeError\<close>.
\<close>

definition getRepoIssues :: "'s server \<Rightarrow> string \<Rightarrow> string \<Rightarrow> string \<Rightarrow> (issue list, 's) io" where
  "getRepoIssues srv owner rp state =
     bind_io (request srv (GET_issues owner rp state 100))
       (\<lambda>p. case p of
               Issues issues \<Rightarrow> return_io (filter (\<lambda>i. \<not> i_pull_request i) issues)
             | _ \<Rightarrow> throw_io TypeError)"

definition getRepoLabels :: "'s server \<Rightarrow> string \<Rightarrow> string \<Rightarrow> (label list, 's) io" where
  "getRepoLabels srv owner rp =
     bind_io (request srv (GET_labels owner rp 100))
       (\<lambda>p. case p of
               Labels labels \<Rightarrow> return_io labels
             | _ \<Rightarrow> throw_io TypeError)"

definition createLabel :: "'s server \<Rightarrow> string \<Rightarrow> string \<Rightarrow> string \<Rightarrow> string \<Rightarrow> (payload, 's) io" where
  "createLabel srv owner rp name color = request srv (POST_label owner rp name color)"

definition createIssue ::
  "'s server \<Rightarrow> string \<Rightarrow> string \<Rightarrow> string \<Rightarrow> string \<Rightarrow> string list \<Rightarrow> string list \<Rightarrow> (payload, 's) io" where
  "createIssue srv owner rp ttl body labels assignees =
     request srv (POST_issue owner rp ttl body labels assignees)"

definition updateIssue ::
  "'s server \<Rightarrow> string \<Rightarrow> string \<Rightarrow> nat \<Rightarrow> issue_updates \<Rightarrow> (payload, 's) io" where
  "updateIssue srv owner rp issueNumber updates = request srv (PATCH_issue owner rp issueNumber updates)"

subsection \<open>\<^verbatim>\<open>UserManager\<close> lookups\<close>

text \<open>
  \<^verbatim>\<open>parseInt(s)\<close> without a radix: leading white space, a sign, the prefix \<^verbatim>\<open>0x\<close> for
  hexadecimal digits, then the longest run of digits; \<open>None\<close> is \<^verbatim>\<open>NaN\<close>.
\<close>

definition hex_digits_val :: "string \<Rightarrow> int" where
  "hex_digits_val ds = foldl (\<lambda>a c. 16 * a + (case hex_val c of Some d \<Rightarrow> int d | None \<Rightarrow> 0)) 0 ds"

definition parseInt :: "string \<Rightarrow> int option" where
  "parseInt s =
     (let s1 = dropWhile is_js_space s;
          neg = (case s1 of c # r \<Rightarrow> c = CHR ''-'' | [] \<Rightarrow> False);
          s2 = (case s1 of c # r \<Rightarrow> if c = CHR ''-'' \<or> c = CHR ''+'' then r else s1 | [] \<Rightarrow> s1);
          hex = (prefix ''0x'' s2 \<or> prefix ''0X'' s2);
          ds = (if hex then takeWhile (\<lambda>c. hex_val c \<noteq> None) (drop 2 s2) else takeWhile is_digit s2);
          n = (if hex then hex_digits_val ds else digits_val ds)
      in if ds = [] then None else Some (if neg then - n else n))"

text \<open>
  The numeric reading of a reference:
  \<^verbatim>\<open>typeof id === 'string' ? parseInt(id) : id\<close>.
\<close>

fun id_number :: "idval \<Rightarrow> int option" where
  "id_number (IdStr s) = parseInt s"
| "id_number (IdNum n) = Some n"

text \<open>
  \<^verbatim>\<open>StringToNumber\<close>, which \<^verbatim>\<open>==\<close> applies to a string that it compares with a number:
  the trimmed text is empty (zero), a binary, octal or hexadecimal literal, or a signed
  decimal literal with an optional fraction and exponent. \<open>None\<close> is \<^verbatim>\<open>NaN\<close> and also
  stands for \<^verbatim>\<open>Infinity\<close>, which equals no id.
\<close>

definition radix_val :: "nat \<Rightarrow> string \<Rightarrow> int option" where
  "radix_val b ds =
     (if ds \<noteq> [] \<and> list_all (\<lambda>c. case hex_val c of Some d \<Rightarrow> d < b | None \<Rightarrow> False) ds
      then Some (foldl (\<lambda>a c. int b * a + (case hex_val c of Some d \<Rightarrow> int d | None \<Rightarrow> 0)) 0 ds)
      else None)"

definition str_exponent :: "string \<Rightarrow> int option" where
  "str_exponent r =
     (case r of
        [] \<Rightarrow> Some 0
      | c # r1 \<Rightarrow>
          if c = CHR ''e'' \<or> c = CHR ''E'' then
            (let neg = (case r1 of d # _ \<Rightarrow> d = CHR ''-'' | [] \<Rightarrow> False);
                 ds = (case r1 of d # r2 \<Rightarrow> if d = CHR ''-'' \<or> d = CHR ''+'' then r2 else r1 | [] \<Rightarrow> r1)
             in if ds \<noteq> [] \<and> list_all is_digit ds
                then Some (if neg then - digits_val ds else digits_val ds) else None)
          else None)"

definition str_unsigned_decimal :: "string \<Rightarrow> json option" where
  "str_unsigned_decimal s =
     (let ds = takeWhile is_digit s;
          r1 = dropWhile is_digit s;
          fs = (case r1 of c # r \<Rightarrow> if c = CHR ''.'' then takeWhile is_digit r else [] | [] \<Rightarrow> []);
          r2 = (case r1 of c # r \<Rightarrow> if c = CHR ''.'' then dropWhile is_digit r else r1 | [] \<Rightarrow> r1)
      in if ds = [] \<and> fs = [] then None
         else
           (case str_exponent r2 of
              None \<Rightarrow> None
            | Some e \<Rightarrow>
                (let m = digits_val (ds @ fs);
                     sc = e - int (length fs)
                 in Some (if 0 \<le> sc then JNum (m * 10 ^ nat sc) else norm_dec m (nat (- sc))))))"

fun negate :: "json \<Rightarrow> json" where
  "negate (JNum n) = JNum (- n)"
| "negate (JDec m k) = JDec (- m) k"
| "negate v = v"

definition StringToNumber :: "string \<Rightarrow> json option" where
  "StringToNumber s =
     (let t = trim s
      in if t = [] then Some (JNum 0)
         else if prefix ''0x'' t \<or> prefix ''0X'' t then map_option JNum (radix_val 16 (drop 2 t))
         else if prefix ''0o'' t \<or> prefix ''0O'' t then map_option JNum (radix_val 8 (drop 2 t))
         else if prefix ''0b'' t \<or> prefix ''0B'' t then map_option JNum (radix_val 2 (drop 2 t))
         else
           (case t of
              c # r \<Rightarrow>
                if c = CHR ''-'' then map_option negate (str_unsigned_decimal r)
                else if c = CHR ''+'' then str_unsigned_decimal r
                else str_unsigned_decimal t
            | [] \<Rightarrow> None))"

text \<open>
  \<^verbatim>\<open>u.id == idNum\<close>, where \<^verbatim>\<open>idNum\<close> is a number or \<^verbatim>\<open>NaN\<close>: a number equals the same
  number, a string equals the number it denotes, and nothing equals \<^verbatim>\<open>NaN\<close>.
\<close>

fun loose_eq :: "idval \<Rightarrow> int option \<Rightarrow> bool" where
  "loose_eq (IdNum n) (Some m) = (n = m)"
| "loose_eq (IdStr s) (Some m) = (StringToNumber s = Some (JNum m))"
| "loose_eq v None = False"

text \<open>\<^verbatim>\<open>UserManager.getUser\<close> (userManager.js).\<close>

definition getUser :: "user_manager \<Rightarrow> idval \<Rightarrow> user option" where
  "getUser um ident = find (\<lambda>u. loose_eq (u_id u) (id_number ident)) (users um)"

text \<open>The test \<^verbatim>\<open>/^\d+$/\<close>.\<close>

definition is_numeric_string :: "string \<Rightarrow> bool" where
  "is_numeric_string s = (s \<noteq> [] \<and> list_all is_digit s)"

text \<open>\<^verbatim>\<open>GitHubBoards.getAssigneeLogin\<close> (dragDrop.js); \<open>None\<close> is \<^verbatim>\<open>null\<close>.\<close>

definition getAssigneeLogin :: "'s world \<Rightarrow> idval \<Rightarrow> string option" where
  "getAssigneeLogin w assigneeId =
     (if \<not> id_truthy assigneeId then None
      else
        (case (case assigneeId of IdStr s \<Rightarrow> if \<not> is_numeric_string s then Some s else None
                                | IdNum n \<Rightarrow> None) of
           Some login \<Rightarrow> Some login
         | None \<Rightarrow>
             (case userManager w of
                None \<Rightarrow> None
              | Some um \<Rightarrow>
                  (case getUser um assigneeId of
                     None \<Rightarrow> None
                   | Some u \<Rightarrow>
                       (case githubUsername u of
                          None \<Rightarrow> None
                        | Some g \<Rightarrow> if g \<noteq> [] then Some g else None)))))"

subsection \<open>\<^verbatim>\<open>GitHubBoards.pushBoard\<close>\<close>

definition isConnected :: "'s world \<Rightarrow> bool" where
  "isConnected w = isAuthenticated w"

text \<open>\<^verbatim>\<open>githubConfig.labelColors\<close> (config.js) and the lookup \<^verbatim>\<open>colors[status] || 'ffffff'\<close>.\<close>

definition labelColors :: "string \<rightharpoonup> string" where
  "labelColors =
     [''backlog'' \<mapsto> ''6e7681'', ''todo'' \<mapsto> ''0e7a86'', ''inProgress'' \<mapsto> ''a371f7'', ''done'' \<mapsto> ''3fb950'']"

definition label_color :: "string \<Rightarrow> string" where
  "label_color st = (case labelColors st of Some c \<Rightarrow> if c \<noteq> [] then c else ''ffffff'' | None \<Rightarrow> ''ffffff'')"

definition statusLabels :: "string list" where
  "statusLabels = [''backlog'', ''to do'', ''in progress'', ''done'']"

text \<open>\<^verbatim>\<open>labelMap\<close>: lower-cased name to label; \<^verbatim>\<open>newLabelMap\<close>: lower-cased name to name.\<close>

definition make_labelMap :: "label list \<Rightarrow> (string \<rightharpoonup> label)" where
  "make_labelMap existingLabels = foldl (\<lambda>m l. m(toLowerCase (l_name l) \<mapsto> l)) Map.empty existingLabels"

definition make_newLabelMap :: "label list \<Rightarrow> (string \<rightharpoonup> string)" where
  "make_newLabelMap updatedLabels = foldl (\<lambda>m l. m(toLowerCase (l_name l) \<mapsto> l_name l)) Map.empty updatedLabels"

text \<open>The loop that creates the status labels that do not exist.\<close>

fun create_status_labels :: "'s server \<Rightarrow> repo \<Rightarrow> (string \<rightharpoonup> label) \<Rightarrow> string list \<Rightarrow> (unit, 's) io" where
  "create_status_labels srv rp labelMap [] = return_io ()"
| "create_status_labels srv rp labelMap (st # sts) =
     bind_io
       (if labelMap st = None
        then bind_io (createLabel srv (owner_login rp) (repo_name rp) st (label_color st)) (\<lambda>_. return_io ())
        else return_io ())
       (\<lambda>_. create_status_labels srv rp labelMap sts)"

text \<open>
  \<^verbatim>\<open>newLabelMap[statusLabel]\<close>. The keys of \<^verbatim>\<open>newLabelMap\<close> are lower-cased names; the key
  that a function or an object gives (its source text, or \<^verbatim>\<open>[object Object]\<close>) has a
  capital letter and is none of them.
\<close>

definition label_name :: "(string \<rightharpoonup> string) \<Rightarrow> string option \<Rightarrow> string option" where
  "label_name newLabelMap statusLabel = (case statusLabel of Some l \<Rightarrow> newLabelMap l | None \<Rightarrow> None)"

text \<open>\<^verbatim>\<open>[x].filter(Boolean)\<close> for a string that may be \<^verbatim>\<open>undefined\<close> or \<^verbatim>\<open>null\<close>.\<close>

definition filter_Boolean :: "string option \<Rightarrow> string list" where
  "filter_Boolean x = (case x of Some s \<Rightarrow> if s \<noteq> [] then [s] else [] | None \<Rightarrow> [])"

text \<open>The body of the loop over the tasks: update the issue with the same title, or create one.\<close>

definition push_task ::
  "'s server \<Rightarrow> repo \<Rightarrow> issue list \<Rightarrow> (string \<rightharpoonup> string) \<Rightarrow> task \<Rightarrow> (payload, 's) io" where
  "push_task srv rp existingIssues newLabelMap t w =
     (let statusLabel = getStatusLabel (status t)
      in case find (\<lambda>i. i_title i = title t) existingIssues of
           Some existingIssue \<Rightarrow>
             updateIssue srv (owner_login rp) (repo_name rp) (i_number existingIssue)
               \<lparr> upd_body = formatTaskBody t,
                 upd_labels = filter_Boolean (label_name newLabelMap statusLabel),
                 upd_assignees =
                   (if id_truthy (assignee t) then
                      (case getAssigneeLogin w (assignee t) of
                         Some u \<Rightarrow> if u \<noteq> [] then Some [u] else None
                       | None \<Rightarrow> None)
                    else None) \<rparr> w
         | None \<Rightarrow>
             createIssue srv (owner_login rp) (repo_name rp) (title t) (formatTaskBody t)
               (filter_Boolean (label_name newLabelMap statusLabel))
               (if id_truthy (assignee t) then filter_Boolean (getAssigneeLogin w (assignee t)) else []) w)"

fun push_loop ::
  "'s server \<Rightarrow> repo \<Rightarrow> issue list \<Rightarrow> (string \<rightharpoonup> string) \<Rightarrow> task list \<Rightarrow> (unit, 's) io" where
  "push_loop srv rp existingIssues newLabelMap [] = return_io ()"
| "push_loop srv rp existingIssues newLabelMap (t # ts) =
     bind_io (push_task srv rp existingIssues newLabelMap t)
       (\<lambda>_. push_loop srv rp existingIssues newLabelMap ts)"

text \<open>The \<^verbatim>\<open>try\<close> block of \<^verbatim>\<open>pushBoard\<close>; its result is \<^verbatim>\<open>taskCount\<close>.\<close>

definition push_try :: "'s server \<Rightarrow> string \<Rightarrow> repo \<Rightarrow> board \<Rightarrow> (nat, 's) io" where
  "push_try srv now rp kb =
     bind_io (getRepoIssues srv (owner_login rp) (repo_name rp) ''all'') (\<lambda>existingIssues.
     bind_io (getRepoLabels srv (owner_login rp) (repo_name rp)) (\<lambda>existingLabels.
     bind_io (create_status_labels srv rp (make_labelMap existingLabels) statusLabels) (\<lambda>_.
     bind_io (getRepoLabels srv (owner_login rp) (repo_name rp)) (\<lambda>updatedLabels.
     bind_io (push_loop srv rp existingIssues (make_newLabelMap updatedLabels) (tasks kb)) (\<lambda>_.
     (\<lambda>w. (Inr (length (tasks kb)), w\<lparr>syncStatus := ''success'', lastSync := Some now\<rparr>)))))))"

text \<open>
  \<^verbatim>\<open>pushBoard(kanbanBoard)\<close>: the two guards, the \<^verbatim>\<open>try\<close> block, and the \<^verbatim>\<open>catch\<close>
  clause that sets the status and throws the error again. \<open>now\<close> is the time of the call.
\<close>

definition pushBoard :: "'s server \<Rightarrow> string \<Rightarrow> board \<Rightarrow> (nat, 's) io" where
  "pushBoard srv now kb w =
     (if \<not> isConnected w then (Inl (Error ''Not connected to GitHub''), w)
      else
        (case selectedRepo w of
           None \<Rightarrow> (Inl (Error ''No repository selected''), w)
         | Some rp \<Rightarrow>
             (case push_try srv now rp kb (w\<lparr>syncStatus := ''syncing''\<rparr>) of
                (Inl e, w') \<Rightarrow> (Inl e, w'\<lparr>syncStatus := ''error''\<rparr>)
              | (Inr r, w') \<Rightarrow> (Inr r, w'))))"

subsection \<open>\<^verbatim>\<open>GitHubBoards.pullBoard\<close> and \<^verbatim>\<open>syncBoard\<close>\<close>

definition pull_try :: "'s server \<Rightarrow> string \<Rightarrow> repo \<Rightarrow> (task list \<times> int, 's) io" where
  "pull_try srv now rp =
     bind_io (getRepoIssues srv (owner_login rp) (repo_name rp) ''all'') (\<lambda>issues.
     (\<lambda>w. case pull_loop issues [] 1 of
             Inl e \<Rightarrow> (Inl e, w)
           | Inr r \<Rightarrow> (Inr r, w\<lparr>syncStatus := ''success'', lastSync := Some now\<rparr>)))"

definition pullBoard :: "'s server \<Rightarrow> string \<Rightarrow> (task list \<times> int, 's) io" where
  "pullBoard srv now w =
     (if \<not> isConnected w then (Inl (Error ''Not connected to GitHub''), w)
      else
        (case selectedRepo w of
           None \<Rightarrow> (Inl (Error ''No repository selected''), w)
         | Some rp \<Rightarrow>
             (case pull_try srv now rp (w\<lparr>syncStatus := ''syncing''\<rparr>) of
                (Inl e, w') \<Rightarrow> (Inl e, w'\<lparr>syncStatus := ''error''\<rparr>)
              | (Inr r, w') \<Rightarrow> (Inr r, w'))))"

definition syncBoard :: "'s server \<Rightarrow> string \<Rightarrow> board \<Rightarrow> (task list \<times> int, 's) io" where
  "syncBoard srv now kb = bind_io (pushBoard srv now kb) (\<lambda>_. pullBoard srv now)"

text \<open>
  The handlers of the push and pull buttons (\<^verbatim>\<open>GitHubBoardsUI\<close>): an error is shown and
  goes no further; a successful pull replaces the tasks and the counter of the board.
\<close>

definition push_button :: "'s server \<Rightarrow> string \<Rightarrow> 's world \<Rightarrow> 's world" where
  "push_button srv now w =
     (case kanbanBoard w of
        None \<Rightarrow> w
      | Some kb \<Rightarrow> snd (pushBoard srv now kb w))"

definition pull_button :: "'s server \<Rightarrow> string \<Rightarrow> 's world \<Rightarrow> 's world" where
  "pull_button srv now w =
     (case pullBoard srv now w of
        (Inl e, w') \<Rightarrow> w'
      | (Inr (ts, n), w') \<Rightarrow>
          (case kanbanBoard w' of
             None \<Rightarrow> w'
           | Some kb \<Rightarrow> w'\<lparr>kanbanBoard := Some (kb\<lparr>tasks := ts, nextTaskId := n\<rparr>)\<rparr>))"

section \<open>A remote service that stores what it is sent\<close>

text \<open>
  For the scenarios that push and pull against a repository: a service that keeps the
  issues (newest first, as the list is returned) and the labels it is sent, numbers the
  issues as they come, and returns one page of at most \<^verbatim>\<open>per_page\<close> entries per list
  request, never more than 100. It rejects a label whose name exists (422) and an update of
  an issue that does not exist (404).
\<close>

record github =
  gh_issues :: "issue list"
  gh_labels :: "label list"

definition gh_label :: "github \<Rightarrow> string \<Rightarrow> label" where
  "gh_label g n =
     (case find (\<lambda>l. toLowerCase (l_name l) = toLowerCase n) (gh_labels g) of
        Some l \<Rightarrow> l
      | None \<Rightarrow> \<lparr>l_name = n, l_color = ''ededed''\<rparr>)"

definition gh_new_issue :: "github \<Rightarrow> string \<Rightarrow> string \<Rightarrow> string list \<Rightarrow> string list \<Rightarrow> issue" where
  "gh_new_issue g ttl body labels assignees =
     \<lparr> i_number = Suc (length (gh_issues g)), i_title = ttl, i_body = Some body,
       i_labels = map (gh_label g) labels, i_assignees = assignees,
       i_created_at = [], i_updated_at = [], i_html_url = [], i_pull_request = False \<rparr>"

definition gh_update_issue :: "github \<Rightarrow> issue_updates \<Rightarrow> issue \<Rightarrow> issue" where
  "gh_update_issue g upd i =
     i\<lparr> i_body := Some (upd_body upd),
        i_labels := map (gh_label g) (upd_labels upd),
        i_assignees := (case upd_assignees upd of Some a \<Rightarrow> a | None \<Rightarrow> i_assignees i) \<rparr>"

fun github_api :: "github server" where
  "github_api g (GET_issues owner rp state per_page) = (Ok (Issues (take (min per_page 100) (gh_issues g))), g)"
| "github_api g (GET_labels owner rp per_page) = (Ok (Labels (take (min per_page 100) (gh_labels g))), g)"
| "github_api g (POST_label owner rp name color) =
     (if list_ex (\<lambda>l. toLowerCase (l_name l) = toLowerCase name) (gh_labels g)
      then (Failed 422 (Some ''Validation Failed''), g)
      else (Ok Other, g\<lparr>gh_labels := gh_labels g @ [\<lparr>l_name = name, l_color = color\<rparr>]\<rparr>))"
| "github_api g (POST_issue owner rp ttl body labels assignees) =
     (Ok Other, g\<lparr>gh_issues := gh_new_issue g ttl body labels assignees # gh_issues g\<rparr>)"
| "github_api g (PATCH_issue owner rp n upd) =
     (if list_ex (\<lambda>i. i_number i = n) (gh_issues g)
      then (Ok Other, g\<lparr>gh_issues := map (\<lambda>i. if i_number i = n then gh_update_issue g upd i else i) (gh_issues g)\<rparr>)
      else (Failed 404 (Some ''Not Found''), g))"

section \<open>Deleting a user\<close>

text \<open>
  \<^verbatim>\<open>KanbanBoard.updateTask\<close> (kanban.js): \<^verbatim>\<open>Object.assign\<close> on the first task with the
  given id; \<open>updates\<close> stands for the assigned properties. Saving and rendering are not
  modelled.
\<close>

fun update_first :: "('a \<Rightarrow> bool) \<Rightarrow> ('a \<Rightarrow> 'a) \<Rightarrow> 'a list \<Rightarrow> 'a list" where
  "update_first p f [] = []"
| "update_first p f (x # xs) = (if p x then f x # xs else x # update_first p f xs)"

definition updateTask :: "int \<Rightarrow> (task \<Rightarrow> task) \<Rightarrow> string \<Rightarrow> board \<Rightarrow> board" where
  "updateTask ident updates now kb =
     kb\<lparr>tasks := update_first (\<lambda>t. task_id t = ident) (\<lambda>t. (updates t)\<lparr>updatedAt := now\<rparr>) (tasks kb)\<rparr>"

text \<open>
  \<^verbatim>\<open>UserManager.getUserAssignedTasks\<close> (userManager.js), on \<^verbatim>\<open>window.kanbanBoard\<close>:
  both sides are read as numbers and compared with \<^verbatim>\<open>===\<close>, which \<^verbatim>\<open>NaN\<close> never
  satisfies.
\<close>

definition assigned_to :: "idval \<Rightarrow> task \<Rightarrow> bool" where
  "assigned_to userId t =
     (case (id_number (assignee t), id_number userId) of
        (Some a, Some b) \<Rightarrow> a = b
      | _ \<Rightarrow> False)"

definition getUserAssignedTasks :: "board option \<Rightarrow> idval \<Rightarrow> task list" where
  "getUserAssignedTasks kbo userId =
     (case kbo of
        None \<Rightarrow> []
      | Some kb \<Rightarrow> filter (assigned_to userId) (tasks kb))"

text \<open>The test \<^verbatim>\<open>u.id !== id\<close>: a number is never strictly equal to a string.\<close>

fun strict_ne :: "idval \<Rightarrow> idval \<Rightarrow> bool" where
  "strict_ne (IdNum n) (IdNum m) = (n \<noteq> m)"
| "strict_ne (IdStr s) (IdStr t) = (s \<noteq> t)"
| "strict_ne (IdNum n) (IdStr t) = True"
| "strict_ne (IdStr s) (IdNum m) = True"

text \<open>
  \<^verbatim>\<open>UserManager.deleteUser\<close> (userManager.js) on the manager itself and on
  \<^verbatim>\<open>window.kanbanBoard\<close>. \<open>confirmed\<close> is the answer to the dialog, which is only asked
  when tasks are assigned.
\<close>

definition deleteUser ::
  "bool \<Rightarrow> string \<Rightarrow> idval \<Rightarrow> user_manager \<Rightarrow> board option \<Rightarrow> bool \<times> user_manager \<times> board option" where
  "deleteUser confirmed now ident um kbo =
     (let assignedTasks = getUserAssignedTasks kbo ident
      in if length assignedTasks > 0 \<and> \<not> confirmed then (False, um, kbo)
         else
           (True,
            um\<lparr>users := filter (\<lambda>u. strict_ne (u_id u) ident) (users um)\<rparr>,
            (if length assignedTasks > 0
             then foldl (\<lambda>b t. map_option (updateTask (task_id t) (\<lambda>x. x\<lparr>assignee := IdStr []\<rparr>) now) b)
                    kbo assignedTasks
             else kbo)))"

section \<open>Status from labels\<close>

lemma labelNames_mem:
  "(s \<in> set (map (\<lambda>l. toLowerCase (l_name l)) labels)) = (\<exists>l\<in>set labels. toLowerCase (l_name l) = s)"
  by auto

text \<open>
  Claim C2. The status of an issue follows the precedence done, in-progress, todo, backlog
  on the lower-cased names of its labels: \<^const>\<open>getKanbanStatus\<close> returns \<open>done\<close> if some
  lower-cased name is \<open>done\<close>, else \<open>in-progress\<close> if some is \<open>in progress\<close>, else \<open>todo\<close>
  if some is \<open>to do\<close>, else \<open>backlog\<close>. In particular labels that contain both \<open>done\<close>
  and \<open>in progress\<close> give \<open>done\<close>, and labels that contain none of the four recognised
  names give \<open>backlog\<close>.
\<close>

theorem getKanbanStatus_precedence:
  "getKanbanStatus labels =
     (if (\<exists>l\<in>set labels. toLowerCase (l_name l) = ''done'') then ''done''
      else if (\<exists>l\<in>set labels. toLowerCase (l_name l) = ''in progress'') then ''in-progress''
      else if (\<exists>l\<in>set labels. toLowerCase (l_name l) = ''to do'') then ''todo''
      else ''backlog'')
   \<and> ((\<exists>l\<in>set labels. l_name l = ''done'') \<and> (\<exists>l\<in>set labels. l_name l = ''in progress'')
        \<longrightarrow> getKanbanStatus labels = ''done'')
   \<and> ((\<forall>l\<in>set labels. toLowerCase (l_name l) \<notin> {''backlog'', ''to do'', ''in progress'', ''done''})
        \<longrightarrow> getKanbanStatus labels = ''backlog'')"
proof -
  have lower_done: "toLowerCase ''done'' = ''done''"
    by code_simp
  have general: "getKanbanStatus labels =
     (if (\<exists>l\<in>set labels. toLowerCase (l_name l) = ''done'') then ''done''
      else if (\<exists>l\<in>set labels. toLowerCase (l_name l) = ''in progress'') then ''in-progress''
      else if (\<exists>l\<in>set labels. toLowerCase (l_name l) = ''to do'') then ''todo''
      else ''backlog'')"
    unfolding getKanbanStatus_def Let_def labelNames_mem ..
  have both: "getKanbanStatus labels = ''done''"
    if "\<exists>l\<in>set labels. l_name l = ''done''"
  proof -
    from that obtain l where "l \<in> set labels" and "toLowerCase (l_name l) = ''done''"
      using lower_done by auto
    then have "\<exists>l\<in>set labels. toLowerCase (l_name l) = ''done''" by blast
    with general show ?thesis by simp
  qed
  have none: "getKanbanStatus labels = ''backlog''"
    if "\<forall>l\<in>set labels. toLowerCase (l_name l) \<notin> {''backlog'', ''to do'', ''in progress'', ''done''}"
  proof -
    from that have "\<not> (\<exists>l\<in>set labels. toLowerCase (l_name l) = ''done'')"
      and "\<not> (\<exists>l\<in>set labels. toLowerCase (l_name l) = ''in progress'')"
      and "\<not> (\<exists>l\<in>set labels. toLowerCase (l_name l) = ''to do'')"
      by auto
    with general show ?thesis by simp
  qed
  from general both none show ?thesis by blast
qed

text \<open>
  The law at three label lists: mixed case with both labels, both labels in lower case, and
  two labels that are not status labels.
\<close>

theorem getKanbanStatus_precedence_witness:
  "getKanbanStatus [\<lparr>l_name = ''In Progress'', l_color = ''a371f7''\<rparr>, \<lparr>l_name = ''DONE'', l_color = ''3fb950''\<rparr>] = ''done''
   \<and> getKanbanStatus [\<lparr>l_name = ''in progress'', l_color = ''a371f7''\<rparr>, \<lparr>l_name = ''done'', l_color = ''3fb950''\<rparr>] = ''done''
   \<and> getKanbanStatus [\<lparr>l_name = ''bug'', l_color = ''d73a4a''\<rparr>, \<lparr>l_name = ''high-priority'', l_color = ''ff0000''\<rparr>] = ''backlog''"
proof -
  let ?A = "[\<lparr>l_name = ''In Progress'', l_color = ''a371f7''\<rparr>, \<lparr>l_name = ''DONE'', l_color = ''3fb950''\<rparr>]"
  let ?B = "[\<lparr>l_name = ''in progress'', l_color = ''a371f7''\<rparr>, \<lparr>l_name = ''done'', l_color = ''3fb950''\<rparr>]"
  let ?C = "[\<lparr>l_name = ''bug'', l_color = ''d73a4a''\<rparr>, \<lparr>l_name = ''high-priority'', l_color = ''ff0000''\<rparr>]"
  have a: "\<exists>l\<in>set ?A. toLowerCase (l_name l) = ''done''"
    by code_simp
  have b: "(\<exists>l\<in>set ?B. l_name l = ''done'') \<and> (\<exists>l\<in>set ?B. l_name l = ''in progress'')"
    by simp
  have c: "\<forall>l\<in>set ?C. toLowerCase (l_name l) \<notin> {''backlog'', ''to do'', ''in progress'', ''done''}"
    by code_simp
  from a getKanbanStatus_precedence [of ?A] have "getKanbanStatus ?A = ''done''"
    by presburger
  moreover from b getKanbanStatus_precedence [of ?B] have "getKanbanStatus ?B = ''done''"
    by blast
  moreover from c getKanbanStatus_precedence [of ?C] have "getKanbanStatus ?C = ''backlog''"
    by blast
  ultimately show ?thesis by blast
qed

section \<open>Facts about the string functions\<close>

lemma find_sub_None_iff: "find_sub p s = None \<longleftrightarrow> \<not> (\<exists>u v. s = u @ p @ v)"
proof (induction s)
  case Nil
  then show ?case by auto
next
  case (Cons c cs)
  show ?case
  proof (cases "prefix p (c # cs)")
    case True
    then obtain v where "c # cs = p @ v" by (auto simp: prefix_def)
    then have "c # cs = [] @ p @ v" by simp
    then have "\<exists>u v. c # cs = u @ p @ v" by blast
    with True show ?thesis by simp
  next
    case False
    have "(\<exists>u v. c # cs = u @ p @ v) \<longleftrightarrow> (\<exists>u v. cs = u @ p @ v)"
    proof
      assume "\<exists>u v. c # cs = u @ p @ v"
      then obtain u v where uv: "c # cs = u @ p @ v" by blast
      show "\<exists>u v. cs = u @ p @ v"
      proof (cases u)
        case Nil
        with uv have "prefix p (c # cs)" by (simp add: prefix_def)
        with False show ?thesis by simp
      next
        case (Cons d u')
        with uv have "cs = u' @ p @ v" by simp
        then show ?thesis by blast
      qed
    next
      assume "\<exists>u v. cs = u @ p @ v"
      then obtain u v where "cs = u @ p @ v" by blast
      then have "c # cs = (c # u) @ p @ v" by simp
      then show "\<exists>u v. c # cs = u @ p @ v" by blast
    qed
    with False Cons.IH show ?thesis by simp
  qed
qed

lemma find_sub_None_Cons:
  "find_sub p (c # cs) = None \<Longrightarrow> \<not> prefix p (c # cs) \<and> find_sub p cs = None"
  by (simp split: if_splits)


lemma match_after_no_stars:
  "find_sub ''**'' b = None \<Longrightarrow> prefix ''**'' lit \<Longrightarrow> match_after lit cls b = None"
proof (induction b)
  case Nil
  then show ?case by simp
next
  case (Cons c cs)
  from Cons.prems have np: "\<not> prefix ''**'' (c # cs)" and rest: "find_sub ''**'' cs = None"
    using find_sub_None_Cons by blast+
  from np Cons.prems(2) have "\<not> prefix lit (c # cs)"
    using prefix_order.trans by blast
  with Cons.IH [OF rest Cons.prems(2)] show ?case by simp
qed



lemma match_dueDate_no_stars: "find_sub ''**'' b = None \<Longrightarrow> match_dueDate b = None"
  unfolding match_dueDate_def by (rule match_after_no_stars) (simp_all add: prefix_def)




text \<open>
  A text \<open>p\<close> is found behind \<open>u\<close> when it starts nowhere in \<open>u\<close>: no end of \<open>u\<close>, followed by
  \<open>p\<close>, begins with \<open>p\<close>.
\<close>

lemma find_sub_prefix: "find_sub p (p @ v) = Some ([], v)"
proof (cases "p @ v")
  case Nil
  then show ?thesis by simp
next
  case (Cons c cs)
  have "prefix p (c # cs)" unfolding Cons [symmetric] by simp
  then have "find_sub p (c # cs) = Some ([], drop (length p) (c # cs))" by simp
  then show ?thesis unfolding Cons [symmetric] by simp
qed

lemma find_sub_first:
  assumes "\<forall>s. suffix s u \<and> s \<noteq> [] \<longrightarrow> \<not> prefix p (s @ p @ v)"
  shows "find_sub p (u @ p @ v) = Some (u, v)"
  using assms
proof (induction u)
  case Nil
  show ?case by (simp add: find_sub_prefix)
next
  case (Cons x u)
  have "suffix (x # u) (x # u) \<and> x # u \<noteq> []" by simp
  with Cons.prems have here: "\<not> prefix p ((x # u) @ p @ v)" by blast
  have "\<forall>s. suffix s u \<and> s \<noteq> [] \<longrightarrow> \<not> prefix p (s @ p @ v)"
    using Cons.prems by (auto simp: suffix_Cons)
  from Cons.IH [OF this] here show ?case by simp
qed


section \<open>The parser consumes what it reads\<close>

text \<open>
  Every value, element list and member list that the parser reads leaves a text that is
  shorter than the one it started from, so the tests on the lengths in \<^const>\<open>parse_elems\<close>
  and \<^const>\<open>parse_membs\<close> never reject anything.
\<close>

lemma parse_int_part_length: "parse_int_part s = Some (ds, r) \<Longrightarrow> length r < length s"
proof (cases s)
  case Nil
  then show "parse_int_part s = Some (ds, r) \<Longrightarrow> length r < length s"
    by (simp add: parse_int_part_def)
next
  case (Cons c r0)
  assume p: "parse_int_part s = Some (ds, r)"
  show "length r < length s"
  proof (cases "c = CHR ''0''")
    case True
    with p Cons show ?thesis by (simp add: parse_int_part_def)
  next
    case False
    with p Cons have d: "is_digit c" and r: "r = dropWhile is_digit s"
      by (auto simp: parse_int_part_def split: if_splits)
    from d Cons have "dropWhile is_digit s = dropWhile is_digit r0" by simp
    with r Cons show ?thesis
      using length_dropWhile_le [of is_digit r0] by simp
  qed
qed

lemma parse_frac_part_length: "parse_frac_part s = Some (fs, r) \<Longrightarrow> length r \<le> length s"
  by (cases s) (auto simp: parse_frac_part_def le_SucI length_dropWhile_le split: if_splits)

lemma parse_exp_digits_length: "parse_exp_digits neg s = Some (e, r) \<Longrightarrow> length r \<le> length s"
  by (auto simp: parse_exp_digits_def length_dropWhile_le split: if_splits)

lemma parse_exp_part_length: "parse_exp_part s = Some (e, r) \<Longrightarrow> length r \<le> length s"
  by (cases s; cases "tl s")
     (auto simp: parse_exp_part_def split: if_splits dest!: parse_exp_digits_length)

lemma parse_unsigned_length: "parse_unsigned neg s = Some (v, r) \<Longrightarrow> length r < length s"
  by (auto simp: parse_unsigned_def Let_def split: option.splits prod.splits
           dest!: parse_int_part_length parse_frac_part_length parse_exp_part_length)

lemma parse_number_length: "parse_number s = Some (v, r) \<Longrightarrow> length r < length s"
  by (cases s) (auto simp: parse_number_def split: if_splits dest!: parse_unsigned_length)


lemma prefix_drop_length: "prefix p s \<Longrightarrow> p \<noteq> [] \<Longrightarrow> length (drop (length p) s) < length s"
  by (cases s) (auto simp: prefix_def)

lemma parse_lengths:
  "\<forall>v r. parse_value cs = Some (v, r) \<longrightarrow> length r < length cs"
  "\<forall>vs r. parse_elems cs1 = Some (vs, r) \<longrightarrow> length r < length cs1"
  "\<forall>kvs r. parse_membs cs2 = Some (kvs, r) \<longrightarrow> length r < length cs2"
proof (induction cs and cs1 and cs2 rule: parse_value_parse_elems_parse_membs.induct)
  case (1 cs)
  show ?case
  proof (intro allI impI)
    fix v r assume p: "parse_value cs = Some (v, r)"
    from p obtain c r0 where ws: "skip_ws cs = c # r0"
      by (cases "skip_ws cs") (simp_all add: parse_value.simps [of cs])
    have le0: "length (c # r0) \<le> length cs" using skip_ws_length [of cs] by (simp only: ws)
    consider (arr) "c = CHR ''[''" | (obj) "c = CHR ''{''" | (str) "c = DQ"
      | (other) "c \<noteq> CHR ''[''" "c \<noteq> CHR ''{''" "c \<noteq> DQ" by blast
    then have "length r < length (c # r0)"
    proof cases
      case arr
      from p ws arr obtain d r' where ws2: "skip_ws r0 = d # r'"
        by (cases "skip_ws r0") (simp_all add: parse_value.simps [of cs])
      show ?thesis
      proof (cases "d = CHR '']''")
        case True
        with p ws arr ws2 have "r = r'" by (simp add: parse_value.simps [of cs])
        with skip_ws_Cons_length [OF ws2] show ?thesis by simp
      next
        case False
        with p ws arr ws2 obtain vs where "parse_elems r0 = Some (vs, r)"
          by (auto simp: parse_value.simps [of cs])
        with "1.IH"(1) [OF ws arr ws2 False] show ?thesis by simp
      qed
    next
      case obj
      then have nb: "c \<noteq> CHR ''[''" by simp
      from p ws obj obtain d r' where ws2: "skip_ws r0 = d # r'"
        by (cases "skip_ws r0") (simp_all add: parse_value.simps [of cs])
      show ?thesis
      proof (cases "d = CHR ''}''")
        case True
        with p ws obj ws2 have "r = r'" by (simp add: parse_value.simps [of cs])
        with skip_ws_Cons_length [OF ws2] show ?thesis by simp
      next
        case False
        with p ws obj ws2 obtain kvs where "parse_membs r0 = Some (kvs, r)"
          by (auto simp: parse_value.simps [of cs])
        with "1.IH"(2) [OF ws nb obj ws2 False] show ?thesis by simp
      qed
    next
      case str
      with p ws obtain k where "parse_chars r0 = Some (k, r)"
        by (auto simp: parse_value.simps [of cs])
      from parse_chars_length [OF this] show ?thesis by simp
    next
      case other
      from p ws other have
        "(if prefix ''true'' (c # r0) then Some (JBool True, drop 4 (c # r0))
          else if prefix ''false'' (c # r0) then Some (JBool False, drop 5 (c # r0))
          else if prefix ''null'' (c # r0) then Some (JNull, drop 4 (c # r0))
          else parse_number (c # r0)) = Some (v, r)"
        by (simp add: parse_value.simps [of cs])
      then show ?thesis
        using prefix_drop_length [of "''true''" "c # r0"] prefix_drop_length [of "''false''" "c # r0"]
          prefix_drop_length [of "''null''" "c # r0"] parse_number_length [of "c # r0" v r]
        by (auto split: if_splits)
    qed
    with le0 show "length r < length cs" by simp
  qed
next
  case (2 cs)
  show ?case
  proof (intro allI impI)
    fix vs r assume p: "parse_elems cs = Some (vs, r)"
    from p obtain v r1 where pv: "parse_value cs = Some (v, r1)"
      by (cases "parse_value cs") (auto simp: parse_elems.simps [of cs])
    from "2.IH"(1) pv have lt: "length r1 < length cs" by simp
    from p pv lt obtain d r' where ws: "skip_ws r1 = d # r'"
      by (cases "skip_ws r1") (simp_all add: parse_elems.simps [of cs])
    from skip_ws_Cons_length [OF ws] lt have lt2: "length r' < length cs" by simp
    show "length r < length cs"
    proof (cases "d = CHR '',''")
      case True
      with p pv lt ws obtain vs' where "parse_elems r' = Some (vs', r)"
        by (auto simp: parse_elems.simps [of cs])
      with "2.IH"(2) [OF pv refl lt ws True] lt2 show ?thesis
        by simp
    next
      case False
      with p pv lt ws have "r = r'"
        by (auto simp: parse_elems.simps [of cs] split: if_splits)
      with lt2 show ?thesis by simp
    qed
  qed
next
  case (3 cs)
  show ?case
  proof (intro allI impI)
    fix kvs r assume p: "parse_membs cs = Some (kvs, r)"
    from p obtain q r0 where ws: "skip_ws cs = q # r0"
      by (cases "skip_ws cs") (simp_all add: parse_membs.simps [of cs])
    from p ws have q: "\<not> q \<noteq> DQ" by (cases "q = DQ") (simp_all add: parse_membs.simps [of cs])
    from p ws q obtain k r1 where pc: "parse_chars r0 = Some (k, r1)"
      by (cases "parse_chars r0") (auto simp: parse_membs.simps [of cs])
    from p ws q pc obtain col r2 where ws1: "skip_ws r1 = col # r2"
      by (cases "skip_ws r1") (simp_all add: parse_membs.simps [of cs])
    from p ws q pc ws1 have col: "\<not> col \<noteq> CHR '':''"
      by (cases "col = CHR '':''") (simp_all add: parse_membs.simps [of cs])
    from p ws q pc ws1 col obtain v r3 where pv: "parse_value r2 = Some (v, r3)"
      by (cases "parse_value r2") (auto simp: parse_membs.simps [of cs])
    from "3.IH"(1) [OF ws q pc refl ws1 col] pv have lt: "length r3 < length r2" by simp
    from p ws q pc ws1 col pv lt obtain d r4 where ws3: "skip_ws r3 = d # r4"
      by (cases "skip_ws r3") (simp_all add: parse_membs.simps [of cs])
    have "length r2 < length cs"
      using skip_ws_Cons_length [OF ws] parse_chars_length [OF pc] skip_ws_Cons_length [OF ws1] by simp
    with lt skip_ws_Cons_length [OF ws3] have lt4: "length r4 < length cs" by simp
    show "length r < length cs"
    proof (cases "d = CHR '',''")
      case True
      with p ws q pc ws1 col pv lt ws3 obtain kvs' where "parse_membs r4 = Some (kvs', r)"
        by (auto simp: parse_membs.simps [of cs])
      with "3.IH"(2) [OF ws q pc refl ws1 col pv refl lt ws3 True] lt4
      show ?thesis by simp
    next
      case False
      with p ws q pc ws1 col pv lt ws3 have "r = r4"
        by (auto simp: parse_membs.simps [of cs] split: if_splits)
      with lt4 show ?thesis by simp
    qed
  qed
qed

lemma parse_value_length: "parse_value cs = Some (v, r) \<Longrightarrow> length r < length cs"
  using parse_lengths(1) by blast

section \<open>Decoding issue bodies\<close>

text \<open>\<^const>\<open>parseTaskBody\<close> returns a value for every body.\<close>

lemma parseTaskBody_total: "\<exists>v. parseTaskBody body = Inr v"
  by (auto simp: parseTaskBody_def split: option.splits sum.splits)



















section \<open>Pulling one issue\<close>






text \<open>The issue of the scenario, with a body to choose.\<close>

definition login_issue :: "string option \<Rightarrow> issue" where
  "login_issue body =
     \<lparr> i_number = 7, i_title = ''Fix login bug'', i_body = body,
       i_labels = [\<lparr>l_name = ''to do'', l_color = ''0e7a86''\<rparr>,
                   \<lparr>l_name = ''high-priority'', l_color = ''d73a4a''\<rparr>],
       i_assignees = [], i_created_at = ''2024-01-10T09:00:00Z'',
       i_updated_at = ''2024-01-11T09:00:00Z'',
       i_html_url = ''https://github.com/acme/board/issues/7'', i_pull_request = False \<rparr>"



section \<open>What an operation of the adapter does to the world\<close>

fun is_ok :: "response \<Rightarrow> bool" where
  "is_ok (Ok p) = True"
| "is_ok (Failed st msg) = False"

text \<open>The state of the service after a list of requests.\<close>

definition replay :: "'s server \<Rightarrow> 's \<Rightarrow> api_request list \<Rightarrow> 's" where
  "replay srv s reqs = foldl (\<lambda>s rq. snd (srv s rq)) s reqs"

text \<open>
  The exchanges \<open>new\<close> of an operation with result \<open>r\<close>: after a result every response was
  ok; with an error every response but the last was ok, and if the last one was not, the
  error is the one of that response.
\<close>

definition stops_at_failure :: "(js_error + 'a) \<Rightarrow> (api_request \<times> response) list \<Rightarrow> bool" where
  "stops_at_failure r new \<longleftrightarrow>
     (case r of
        Inr v \<Rightarrow> list_all (\<lambda>x. is_ok (snd x)) new
      | Inl e \<Rightarrow>
          list_all (\<lambda>x. is_ok (snd x)) (butlast new)
          \<and> (\<forall>rq st msg. new \<noteq> [] \<and> last new = (rq, Failed st msg) \<longrightarrow> e = api_error st msg))"

text \<open>
  A step from \<open>w\<close> to \<open>w'\<close> with result \<open>r\<close> is orderly when it leaves the two stores, the
  token and the selected repository alone, and when the exchanges it adds are requests to
  the service and its answers, one after the other, up to the first that is not ok.
\<close>

definition orderly_step :: "'s server \<Rightarrow> 's world \<Rightarrow> (js_error + 'a) \<Rightarrow> 's world \<Rightarrow> bool" where
  "orderly_step srv w r w' \<longleftrightarrow>
     kanbanBoard w' = kanbanBoard w \<and> userManager w' = userManager w
     \<and> accessToken w' = accessToken w \<and> selectedRepo w' = selectedRepo w
     \<and> (\<exists>new. exchanges w' = exchanges w @ new
            \<and> remote w' = replay srv (remote w) (map fst new)
            \<and> stops_at_failure r new)"

definition orderly :: "'s server \<Rightarrow> ('a, 's) io \<Rightarrow> bool" where
  "orderly srv m \<longleftrightarrow> (\<forall>w r w'. m w = (r, w') \<longrightarrow> orderly_step srv w r w')"

lemma orderlyI: "(\<And>w r w'. m w = (r, w') \<Longrightarrow> orderly_step srv w r w') \<Longrightarrow> orderly srv m"
  by (simp add: orderly_def)

lemma orderlyD: "orderly srv m \<Longrightarrow> m w = (r, w') \<Longrightarrow> orderly_step srv w r w'"
  by (simp add: orderly_def)

lemma stops_at_failure_Nil: "stops_at_failure r []"
  by (simp add: stops_at_failure_def split: sum.splits)

lemma orderly_step_silent:
  assumes "kanbanBoard w' = kanbanBoard w" and "userManager w' = userManager w"
    and "accessToken w' = accessToken w" and "selectedRepo w' = selectedRepo w"
    and "exchanges w' = exchanges w" and "remote w' = remote w"
  shows "orderly_step srv w r w'"
proof -
  have "exchanges w' = exchanges w @ [] \<and> remote w' = replay srv (remote w) (map fst [])
        \<and> stops_at_failure r []"
    using assms by (simp add: replay_def stops_at_failure_Nil)
  then have "\<exists>new. exchanges w' = exchanges w @ new
            \<and> remote w' = replay srv (remote w) (map fst new)
            \<and> stops_at_failure r new" ..
  with assms show ?thesis by (simp add: orderly_step_def)
qed

lemma stops_at_failure_append:
  assumes "stops_at_failure (Inr x) new1" and "stops_at_failure r new2"
  shows "stops_at_failure r (new1 @ new2)"
proof (cases r)
  case (Inr v)
  with assms show ?thesis by (simp add: stops_at_failure_def)
next
  case (Inl e)
  from assms(1) have all1: "list_all (\<lambda>x. is_ok (snd x)) new1"
    by (simp add: stops_at_failure_def)
  show ?thesis
  proof (cases "new2 = []")
    case True
    have "list_all (\<lambda>x. is_ok (snd x)) (butlast new1)"
      using all1 by (auto simp: list_all_iff dest: in_set_butlastD)
    moreover have "\<forall>rq st msg. new1 \<noteq> [] \<and> last new1 = (rq, Failed st msg) \<longrightarrow> e = api_error st msg"
    proof (intro allI impI)
      fix rq st msg
      assume h: "new1 \<noteq> [] \<and> last new1 = (rq, Failed st msg)"
      then have "last new1 \<in> set new1" using last_in_set by blast
      with all1 have "is_ok (snd (last new1))" by (simp add: list_all_iff)
      with h show "e = api_error st msg" by simp
    qed
    ultimately show ?thesis using True Inl by (simp add: stops_at_failure_def)
  next
    case False
    with assms(2) all1 Inl show ?thesis by (simp add: stops_at_failure_def butlast_append)
  qed
qed

lemma orderly_step_trans:
  assumes "orderly_step srv w (Inr x) w1" and "orderly_step srv w1 r w'"
  shows "orderly_step srv w r w'"
proof -
  from assms(1) obtain new1 where
    st1: "kanbanBoard w1 = kanbanBoard w" "userManager w1 = userManager w"
         "accessToken w1 = accessToken w" "selectedRepo w1 = selectedRepo w"
    and ex1: "exchanges w1 = exchanges w @ new1"
    and rp1: "remote w1 = replay srv (remote w) (map fst new1)"
    and sf1: "stops_at_failure (Inr x :: js_error + 'b) new1"
    unfolding orderly_step_def by blast
  from assms(2) obtain new2 where
    st2: "kanbanBoard w' = kanbanBoard w1" "userManager w' = userManager w1"
         "accessToken w' = accessToken w1" "selectedRepo w' = selectedRepo w1"
    and ex2: "exchanges w' = exchanges w1 @ new2"
    and rp2: "remote w' = replay srv (remote w1) (map fst new2)"
    and sf2: "stops_at_failure r new2"
    unfolding orderly_step_def by blast
  have "exchanges w' = exchanges w @ (new1 @ new2)" using ex1 ex2 by simp
  moreover have "remote w' = replay srv (remote w) (map fst (new1 @ new2))"
    using rp1 rp2 by (simp add: replay_def)
  moreover have "stops_at_failure r (new1 @ new2)"
    using sf1 sf2 by (rule stops_at_failure_append)
  ultimately have "\<exists>new. exchanges w' = exchanges w @ new
            \<and> remote w' = replay srv (remote w) (map fst new)
            \<and> stops_at_failure r new" by blast
  with st1 st2 show ?thesis by (simp add: orderly_step_def)
qed

lemma orderly_return: "orderly srv (return_io x)"
  by (rule orderlyI) (auto simp: return_io_def intro: orderly_step_silent)

lemma orderly_throw: "orderly srv (throw_io e)"
  by (rule orderlyI) (auto simp: throw_io_def intro: orderly_step_silent)

lemma orderly_step_request:
  assumes "request srv req w = (r, w')"
  shows "orderly_step srv w r w'"
proof (cases "isAuthenticated w")
  case False
  with assms have "w' = w" by (simp add: request_def)
  then show ?thesis by (simp add: orderly_step_silent)
next
  case True
  obtain resp s' where srv: "srv (remote w) req = (resp, s')" by (cases "srv (remote w) req")
  have w': "w' = w\<lparr>remote := s', exchanges := exchanges w @ [(req, resp)]\<rparr>"
    using assms True srv by (cases resp) (simp_all add: request_def)
  have sf: "stops_at_failure r [(req, resp)]"
    using assms True srv by (cases resp) (auto simp: request_def stops_at_failure_def)
  have "exchanges w' = exchanges w @ [(req, resp)]
        \<and> remote w' = replay srv (remote w) (map fst [(req, resp)])
        \<and> stops_at_failure r [(req, resp)]"
    using w' sf srv by (simp add: replay_def)
  then have "\<exists>new. exchanges w' = exchanges w @ new
            \<and> remote w' = replay srv (remote w) (map fst new)
            \<and> stops_at_failure r new" ..
  with w' show ?thesis by (simp add: orderly_step_def)
qed

lemma orderly_request: "orderly srv (request srv req)"
  by (rule orderlyI) (rule orderly_step_request)

lemma orderly_step_Inl:
  "orderly_step srv w (Inl e :: js_error + 'a) w1 \<Longrightarrow> orderly_step srv w (Inl e :: js_error + 'b) w1"
  by (simp add: orderly_step_def stops_at_failure_def)

lemma orderly_bind:
  fixes m :: "('a, 's) io" and f :: "'a \<Rightarrow> ('b, 's) io"
  assumes m: "orderly srv m" and f: "\<And>x. orderly srv (f x)"
  shows "orderly srv (bind_io m f)"
proof (rule orderlyI)
  fix w r w'
  assume run: "bind_io m f w = (r, w')"
  obtain r1 w1 where m1: "m w = (r1, w1)" by (cases "m w")
  show "orderly_step srv w r w'"
  proof (cases r1)
    case (Inl e)
    with run m1 have "r = Inl e" and "w' = w1" by (simp_all add: bind_io_def)
    moreover from orderlyD [OF m m1] Inl have "orderly_step srv w (Inl e :: js_error + 'a) w1"
      by simp
    then have "orderly_step srv w (Inl e :: js_error + 'b) w1"
      by (rule orderly_step_Inl)
    ultimately show ?thesis by simp
  next
    case (Inr x)
    with run m1 have "f x w1 = (r, w')" by (simp add: bind_io_def)
    with f have "orderly_step srv w1 r w'" by (rule orderlyD)
    moreover from orderlyD [OF m m1] Inr have "orderly_step srv w (Inr x :: js_error + 'a) w1"
      by simp
    ultimately show ?thesis by (rule orderly_step_trans [rotated])
  qed
qed

lemma orderly_if: "orderly srv a \<Longrightarrow> orderly srv b \<Longrightarrow> orderly srv (if c then a else b)"
  by simp

lemma orderly_getRepoIssues: "orderly srv (getRepoIssues srv owner rp state)"
  unfolding getRepoIssues_def
  by (intro orderly_bind orderly_request) (auto split: payload.splits intro: orderly_return orderly_throw)

lemma orderly_getRepoLabels: "orderly srv (getRepoLabels srv owner rp)"
  unfolding getRepoLabels_def
  by (intro orderly_bind orderly_request) (auto split: payload.splits intro: orderly_return orderly_throw)

lemma orderly_create_status_labels: "orderly srv (create_status_labels srv rp labelMap sts)"
proof (induction sts)
  case Nil
  then show ?case by (simp add: orderly_return)
next
  case (Cons st sts)
  show ?case
    unfolding create_status_labels.simps createLabel_def
    by (intro orderly_bind orderly_if orderly_request orderly_return Cons.IH)
qed

text \<open>The request that \<^const>\<open>push_task\<close> sends for a task.\<close>

definition push_request ::
  "repo \<Rightarrow> issue list \<Rightarrow> (string \<rightharpoonup> string) \<Rightarrow> 's world \<Rightarrow> task \<Rightarrow> api_request" where
  "push_request rp existingIssues newLabelMap w t =
     (case find (\<lambda>i. i_title i = title t) existingIssues of
        Some existingIssue \<Rightarrow>
          PATCH_issue (owner_login rp) (repo_name rp) (i_number existingIssue)
            \<lparr> upd_body = formatTaskBody t,
              upd_labels = filter_Boolean (label_name newLabelMap (getStatusLabel (status t))),
              upd_assignees =
                (if id_truthy (assignee t) then
                   (case getAssigneeLogin w (assignee t) of
                      Some u \<Rightarrow> if u \<noteq> [] then Some [u] else None
                    | None \<Rightarrow> None)
                 else None) \<rparr>
      | None \<Rightarrow>
          POST_issue (owner_login rp) (repo_name rp) (title t) (formatTaskBody t)
            (filter_Boolean (label_name newLabelMap (getStatusLabel (status t))))
            (if id_truthy (assignee t) then filter_Boolean (getAssigneeLogin w (assignee t)) else []))"

lemma push_task_request:
  "push_task srv rp existingIssues newLabelMap t w =
     request srv (push_request rp existingIssues newLabelMap w t) w"
  by (simp add: push_task_def push_request_def createIssue_def updateIssue_def Let_def split: option.splits)

lemma orderly_push_task: "orderly srv (push_task srv rp existingIssues newLabelMap t)"
proof (rule orderlyI)
  fix w r w'
  assume "push_task srv rp existingIssues newLabelMap t w = (r, w')"
  then have "request srv (push_request rp existingIssues newLabelMap w t) w = (r, w')"
    by (simp add: push_task_request)
  then show "orderly_step srv w r w'" by (rule orderly_step_request)
qed

lemma orderly_push_loop: "orderly srv (push_loop srv rp existingIssues newLabelMap ts)"
proof (induction ts)
  case Nil
  then show ?case by (simp add: orderly_return)
next
  case (Cons t ts)
  show ?case
    unfolding push_loop.simps
    by (intro orderly_bind orderly_push_task Cons.IH)
qed

lemma orderly_finish:
  "orderly srv (\<lambda>w. (r, w\<lparr>syncStatus := s, lastSync := l\<rparr>))"
  by (rule orderlyI) (auto intro: orderly_step_silent)

lemma orderly_push_try: "orderly srv (push_try srv now rp kb)"
  unfolding push_try_def
  by (intro orderly_bind orderly_getRepoIssues orderly_getRepoLabels orderly_create_status_labels
        orderly_push_loop orderly_finish)

lemma orderly_pull_try: "orderly srv (pull_try srv now rp)"
  unfolding pull_try_def
proof (intro orderly_bind orderly_getRepoIssues)
  fix issues :: "issue list"
  show "orderly srv (\<lambda>w. case pull_loop issues [] 1 of
             Inl e \<Rightarrow> (Inl e, w)
           | Inr r \<Rightarrow> (Inr r, w\<lparr>syncStatus := ''success'', lastSync := Some now\<rparr>))"
    by (rule orderlyI) (auto split: sum.splits intro: orderly_step_silent)
qed

text \<open>The guards and the \<^verbatim>\<open>catch\<close> clause around a \<^verbatim>\<open>try\<close> block.\<close>

lemma orderly_step_guarded:
  assumes body: "orderly srv body"
    and run: "(case body (w\<lparr>syncStatus := ''syncing''\<rparr>) of
                (Inl e, w') \<Rightarrow> (Inl e, w'\<lparr>syncStatus := ''error''\<rparr>)
              | (Inr r, w') \<Rightarrow> (Inr r, w')) = (r, w')"
  shows "orderly_step srv w r w'"
proof -
  let ?w0 = "w\<lparr>syncStatus := ''syncing''\<rparr>"
  obtain r1 w1 where b: "body ?w0 = (r1, w1)" by (cases "body ?w0")
  have first: "orderly_step srv w (Inr () :: js_error + unit) ?w0"
    by (rule orderly_step_silent) simp_all
  have mid: "orderly_step srv ?w0 r1 w1"
    using body b by (rule orderlyD)
  from run b have res: "r = r1" by (cases r1) simp_all
  have "orderly_step srv w r1 w1"
    using first mid by (rule orderly_step_trans)
  then show ?thesis
  proof (cases r1)
    case (Inl e)
    with run b have "w' = w1\<lparr>syncStatus := ''error''\<rparr>" by simp
    with \<open>orderly_step srv w r1 w1\<close> res show ?thesis by (simp add: orderly_step_def)
  next
    case (Inr v)
    with run b have "w' = w1" by simp
    with \<open>orderly_step srv w r1 w1\<close> res show ?thesis by simp
  qed
qed

lemma orderly_pushBoard: "orderly srv (pushBoard srv now kb)"
proof (rule orderlyI)
  fix w r w'
  assume run: "pushBoard srv now kb w = (r, w')"
  show "orderly_step srv w r w'"
  proof (cases "\<not> isConnected w \<or> selectedRepo w = None")
    case True
    with run have "w' = w" by (auto simp: pushBoard_def split: if_splits)
    then show ?thesis by (simp add: orderly_step_silent)
  next
    case False
    then obtain rp where "selectedRepo w = Some rp" and "isConnected w" by auto
    with run show ?thesis
      by (intro orderly_step_guarded [OF orderly_push_try [of srv now rp kb]]) (simp add: pushBoard_def)
  qed
qed

lemma orderly_pullBoard: "orderly srv (pullBoard srv now)"
proof (rule orderlyI)
  fix w r w'
  assume run: "pullBoard srv now w = (r, w')"
  show "orderly_step srv w r w'"
  proof (cases "\<not> isConnected w \<or> selectedRepo w = None")
    case True
    with run have "w' = w" by (auto simp: pullBoard_def split: if_splits)
    then show ?thesis by (simp add: orderly_step_silent)
  next
    case False
    then obtain rp where "selectedRepo w = Some rp" and "isConnected w" by auto
    with run show ?thesis
      by (intro orderly_step_guarded [OF orderly_pull_try [of srv now rp]]) (simp add: pullBoard_def)
  qed
qed

text \<open>In an orderly step a response that is not ok is the last one, and its error is thrown.\<close>

lemma orderly_step_failure:
  assumes "orderly_step srv w r w'"
    and "(rq, Failed st msg) \<in> set (drop (length (exchanges w)) (exchanges w'))"
  shows "r = Inl (api_error st msg)"
proof -
  from assms(1) obtain new where
    ex: "exchanges w' = exchanges w @ new" and sf: "stops_at_failure r new"
    unfolding orderly_step_def by blast
  from ex assms(2) have mem: "(rq, Failed st msg) \<in> set new" by simp
  then have ne: "new \<noteq> []" by auto
  show ?thesis
  proof (cases r)
    case (Inr v)
    with sf mem have "is_ok (Failed st msg)" by (auto simp: stops_at_failure_def list_all_iff)
    then show ?thesis by simp
  next
    case (Inl e)
    with sf have bl: "list_all (\<lambda>x. is_ok (snd x)) (butlast new)"
      and la: "\<forall>rq st msg. new \<noteq> [] \<and> last new = (rq, Failed st msg) \<longrightarrow> e = api_error st msg"
      by (simp_all add: stops_at_failure_def)
    from ne obtain ys y where new: "new = ys @ [y]"
      by (cases new rule: rev_cases) auto
    from bl new have "(rq, Failed st msg) \<notin> set ys"
      by (auto simp: list_all_iff)
    with mem new have "last new = (rq, Failed st msg)" by simp
    with la ne Inl show ?thesis by blast
  qed
qed

section \<open>Failures of push and pull\<close>

lemma isConnected_iff:
  "isConnected w \<longleftrightarrow> \<not> (accessToken w = None \<or> accessToken w = Some [])"
  by (auto simp: isConnected_def isAuthenticated_def split: option.splits)

text \<open>With a token and a repository, a pull sends one request and a push sends that request first.\<close>

lemma pullBoard_first_request:
  assumes conn: "isConnected w" and repo: "selectedRepo w = Some rp"
  shows "exchanges (snd (pullBoard srv now w))
           = exchanges w @ [(GET_issues (owner_login rp) (repo_name rp) ''all'' 100,
                             fst (srv (remote w) (GET_issues (owner_login rp) (repo_name rp) ''all'' 100)))]"
proof -
  let ?rq = "GET_issues (owner_login rp) (repo_name rp) ''all'' 100"
  let ?w0 = "w\<lparr>syncStatus := ''syncing''\<rparr>"
  obtain resp s' where srv: "srv (remote w) ?rq = (resp, s')" by (cases "srv (remote w) ?rq")
  from conn have auth: "isAuthenticated ?w0" by (simp add: isConnected_def isAuthenticated_def)
  have "exchanges (snd (pull_try srv now rp ?w0)) = exchanges w @ [(?rq, resp)]"
    using auth srv
    by (auto simp: pull_try_def getRepoIssues_def bind_io_def request_def return_io_def throw_io_def
             split: response.splits payload.splits sum.splits)
  moreover have "exchanges (snd (pullBoard srv now w)) = exchanges (snd (pull_try srv now rp ?w0))"
    using conn repo by (auto simp: pullBoard_def split: prod.splits sum.splits)
  ultimately show ?thesis by (simp add: srv)
qed

lemma pushBoard_first_request:
  assumes conn: "isConnected w" and repo: "selectedRepo w = Some rp"
  shows "\<exists>rest. exchanges (snd (pushBoard srv now kb w))
           = exchanges w @ (GET_issues (owner_login rp) (repo_name rp) ''all'' 100,
                             fst (srv (remote w) (GET_issues (owner_login rp) (repo_name rp) ''all'' 100))) # rest"
proof -
  let ?rq = "GET_issues (owner_login rp) (repo_name rp) ''all'' 100"
  let ?w0 = "w\<lparr>syncStatus := ''syncing''\<rparr>"
  let ?k = "\<lambda>existingIssues.
     bind_io (getRepoLabels srv (owner_login rp) (repo_name rp)) (\<lambda>existingLabels.
     bind_io (create_status_labels srv rp (make_labelMap existingLabels) statusLabels) (\<lambda>_.
     bind_io (getRepoLabels srv (owner_login rp) (repo_name rp)) (\<lambda>updatedLabels.
     bind_io (push_loop srv rp existingIssues (make_newLabelMap updatedLabels) (tasks kb)) (\<lambda>_.
     (\<lambda>w. (Inr (length (tasks kb)), w\<lparr>syncStatus := ''success'', lastSync := Some now\<rparr>))))))"
  obtain resp s' where srv: "srv (remote w) ?rq = (resp, s')" by (cases "srv (remote w) ?rq")
  from conn have auth: "isAuthenticated ?w0" by (simp add: isConnected_def isAuthenticated_def)
  obtain r1 w1 where g: "getRepoIssues srv (owner_login rp) (repo_name rp) ''all'' ?w0 = (r1, w1)"
    by (cases "getRepoIssues srv (owner_login rp) (repo_name rp) ''all'' ?w0")
  have e1: "exchanges w1 = exchanges w @ [(?rq, resp)]"
    using g auth srv
    by (auto simp: getRepoIssues_def bind_io_def request_def return_io_def throw_io_def
             split: response.splits payload.splits)
  have ord: "orderly srv (?k ex)" for ex
    by (intro orderly_bind orderly_getRepoLabels orderly_create_status_labels orderly_push_loop orderly_finish)
  have "\<exists>rest. exchanges (snd (push_try srv now rp kb ?w0)) = exchanges w @ (?rq, resp) # rest"
  proof (cases r1)
    case (Inl e)
    with g have "push_try srv now rp kb ?w0 = (Inl e, w1)" by (simp add: push_try_def bind_io_def)
    with e1 show ?thesis by simp
  next
    case (Inr ex)
    obtain r2 w2 where k: "?k ex w1 = (r2, w2)" by (cases "?k ex w1")
    from orderlyD [OF ord k] obtain new where "exchanges w2 = exchanges w1 @ new"
      unfolding orderly_step_def by blast
    moreover from g Inr k have "push_try srv now rp kb ?w0 = (r2, w2)"
      by (simp add: push_try_def bind_io_def)
    ultimately show ?thesis by (simp add: e1)
  qed
  moreover have "exchanges (snd (pushBoard srv now kb w)) = exchanges (snd (push_try srv now rp kb ?w0))"
    using conn repo by (auto simp: pushBoard_def split: prod.splits sum.splits)
  ultimately show ?thesis by (simp add: srv)
qed

text \<open>
  Claim C8, as amended. The failures of push and pull are plain \<^verbatim>\<open>Error\<close> objects that
  differ in their message alone. Called without an access token, push and pull fail with the
  message \<^verbatim>\<open>Not connected to GitHub\<close> and leave the world as it was, so no request was
  sent; called with a token but without a selected repository they fail with
  \<^verbatim>\<open>No repository selected\<close>, again before any request. With a token and a repository a
  pull sends one request, the list of issues, and a push sends that request first. A
  response of the service that is not ok at any point of a push or a pull reaches the caller
  as the error of that response: its message is the message of the response when it has
  one, whatever the status, and names the status only when the response has no message.
\<close>

theorem push_pull_failures:
  "((accessToken w = None \<or> accessToken w = Some []) \<longrightarrow>
       pushBoard srv now kb w = (Inl (Error ''Not connected to GitHub''), w)
     \<and> pullBoard srv now w = (Inl (Error ''Not connected to GitHub''), w))
   \<and> (\<not> (accessToken w = None \<or> accessToken w = Some []) \<and> selectedRepo w = None \<longrightarrow>
       pushBoard srv now kb w = (Inl (Error ''No repository selected''), w)
     \<and> pullBoard srv now w = (Inl (Error ''No repository selected''), w))
   \<and> (\<forall>r w' rq st msg.
         pushBoard srv now kb w = (r, w')
         \<and> (rq, Failed st msg) \<in> set (drop (length (exchanges w)) (exchanges w'))
         \<longrightarrow> r = Inl (api_error st msg))
   \<and> (\<forall>r w' rq st msg.
         pullBoard srv now w = (r, w')
         \<and> (rq, Failed st msg) \<in> set (drop (length (exchanges w)) (exchanges w'))
         \<longrightarrow> r = Inl (api_error st msg))
   \<and> (\<not> (accessToken w = None \<or> accessToken w = Some []) \<and> selectedRepo w = Some rp \<longrightarrow>
       (\<exists>rest. exchanges (snd (pushBoard srv now kb w))
           = exchanges w @ (GET_issues (owner_login rp) (repo_name rp) ''all'' 100,
                             fst (srv (remote w) (GET_issues (owner_login rp) (repo_name rp) ''all'' 100))) # rest)
     \<and> exchanges (snd (pullBoard srv now w))
           = exchanges w @ [(GET_issues (owner_login rp) (repo_name rp) ''all'' 100,
                             fst (srv (remote w) (GET_issues (owner_login rp) (repo_name rp) ''all'' 100)))])
   \<and> (\<forall>st m. m \<noteq> [] \<longrightarrow> api_error st (Some m) = Error m)
   \<and> (\<forall>st. api_error st None = Error (''GitHub API error: '' @ show_nat st))"
proof (intro conjI allI impI)
  assume "\<not> (accessToken w = None \<or> accessToken w = Some []) \<and> selectedRepo w = Some rp"
  then have c: "isConnected w" and r: "selectedRepo w = Some rp" by (simp_all add: isConnected_iff)
  from c r show "\<exists>rest. exchanges (snd (pushBoard srv now kb w))
           = exchanges w @ (GET_issues (owner_login rp) (repo_name rp) ''all'' 100,
                             fst (srv (remote w) (GET_issues (owner_login rp) (repo_name rp) ''all'' 100))) # rest"
    by (rule pushBoard_first_request)
  from c r show "exchanges (snd (pullBoard srv now w))
           = exchanges w @ [(GET_issues (owner_login rp) (repo_name rp) ''all'' 100,
                             fst (srv (remote w) (GET_issues (owner_login rp) (repo_name rp) ''all'' 100)))]"
    by (rule pullBoard_first_request)
next
  assume "accessToken w = None \<or> accessToken w = Some []"
  then have nc: "\<not> isConnected w" by (simp add: isConnected_iff)
  from nc show "pushBoard srv now kb w = (Inl (Error ''Not connected to GitHub''), w)"
    by (simp add: pushBoard_def)
  from nc show "pullBoard srv now w = (Inl (Error ''Not connected to GitHub''), w)"
    by (simp add: pullBoard_def)
next
  assume "\<not> (accessToken w = None \<or> accessToken w = Some []) \<and> selectedRepo w = None"
  then have c: "isConnected w" and n: "selectedRepo w = None" by (simp_all add: isConnected_iff)
  from c n show "pushBoard srv now kb w = (Inl (Error ''No repository selected''), w)"
    by (simp add: pushBoard_def)
  from c n show "pullBoard srv now w = (Inl (Error ''No repository selected''), w)"
    by (simp add: pullBoard_def)
next
  fix r :: "js_error + nat" and w' rq st msg
  assume "pushBoard srv now kb w = (r, w')
         \<and> (rq, Failed st msg) \<in> set (drop (length (exchanges w)) (exchanges w'))"
  then show "r = Inl (api_error st msg)"
    using orderly_step_failure [OF orderlyD [OF orderly_pushBoard]] by blast
next
  fix r :: "js_error + task list \<times> int" and w' rq st msg
  assume "pullBoard srv now w = (r, w')
         \<and> (rq, Failed st msg) \<in> set (drop (length (exchanges w)) (exchanges w'))"
  then show "r = Inl (api_error st msg)"
    using orderly_step_failure [OF orderlyD [OF orderly_pullBoard]] by blast
next
  fix st m
  assume "m \<noteq> ([] :: string)"
  then show "api_error st (Some m) = Error m" by (simp add: api_error_def)
next
  fix st
  show "api_error st None = Error (''GitHub API error: '' @ show_nat st)"
    by (simp add: api_error_def)
qed

text \<open>A board with one task, three worlds, and a service that is down.\<close>

definition docs_task :: task where
  "docs_task =
     \<lparr> task_id = 1, title = ''Write docs'', description = JStr ''Explain the sync'',
       status = ''todo'', priority = JStr ''high'', assignee = IdStr ''3'',
       dueDate = JStr ''2024-03-01'', comments = JArr [], attachments = JArr [],
       createdAt = ''2024-01-10T09:00:00Z'', updatedAt = ''2024-01-10T09:00:00Z'',
       githubIssueNumber = None, githubUrl = None \<rparr>"

definition docs_board :: board where
  "docs_board = \<lparr>tasks = [docs_task], nextTaskId = 2\<rparr>"

definition offline_world :: "unit world" where
  "offline_world =
     \<lparr> accessToken = Some [], selectedRepo = None, syncStatus = ''idle'', lastSync = None,
       kanbanBoard = Some docs_board, userManager = None, remote = (), exchanges = [] \<rparr>"

definition down_service :: "unit server" where
  "down_service s rq = (Failed 503 None, s)"

text \<open>No token; a token but no repository; both, and a service that answers 503.\<close>

theorem push_pull_failures_witness:
  "pushBoard down_service ''now'' docs_board offline_world
     = (Inl (Error ''Not connected to GitHub''), offline_world)
   \<and> pullBoard down_service ''now'' (offline_world\<lparr>accessToken := Some ''ghp_x''\<rparr>)
     = (Inl (Error ''No repository selected''), offline_world\<lparr>accessToken := Some ''ghp_x''\<rparr>)
   \<and> fst (pushBoard down_service ''now'' docs_board
        (offline_world\<lparr>accessToken := Some ''ghp_x'',
                        selectedRepo := Some \<lparr>owner_login = ''acme'', repo_name = ''board''\<rparr>\<rparr>))
     = Inl (Error ''GitHub API error: 503'')
   \<and> exchanges (snd (pullBoard down_service ''now''
        (offline_world\<lparr>accessToken := Some ''ghp_x'',
                        selectedRepo := Some \<lparr>owner_login = ''acme'', repo_name = ''board''\<rparr>\<rparr>)))
     = [(GET_issues ''acme'' ''board'' ''all'' 100, Failed 503 None)]"
proof -
  let ?w2 = "offline_world\<lparr>accessToken := Some ''ghp_x''\<rparr>"
  let ?w3 = "offline_world\<lparr>accessToken := Some ''ghp_x'',
                        selectedRepo := Some \<lparr>owner_login = ''acme'', repo_name = ''board''\<rparr>\<rparr>"
  let ?run = "pushBoard down_service ''now'' docs_board ?w3"
  have h1: "accessToken offline_world = None \<or> accessToken offline_world = Some []"
    by (simp add: offline_world_def)
  have h2: "\<not> (accessToken ?w2 = None \<or> accessToken ?w2 = Some []) \<and> selectedRepo ?w2 = None"
    by (simp add: offline_world_def)
  have h3: "?run = (fst ?run, snd ?run)
            \<and> (GET_issues ''acme'' ''board'' ''all'' 100, Failed 503 None)
                \<in> set (drop (length (exchanges ?w3)) (exchanges (snd ?run)))"
    by code_simp
  have e: "api_error 503 None = Error ''GitHub API error: 503''"
    by code_simp
  have h4: "\<not> (accessToken ?w3 = None \<or> accessToken ?w3 = Some [])
            \<and> selectedRepo ?w3 = Some \<lparr>owner_login = ''acme'', repo_name = ''board''\<rparr>"
    by (simp add: offline_world_def)
  from h1 push_pull_failures [of offline_world down_service "''now''" docs_board]
  have "pushBoard down_service ''now'' docs_board offline_world
     = (Inl (Error ''Not connected to GitHub''), offline_world)" by blast
  moreover from h2 push_pull_failures [of ?w2 down_service "''now''" docs_board]
  have "pullBoard down_service ''now'' ?w2 = (Inl (Error ''No repository selected''), ?w2)" by blast
  moreover from h3 push_pull_failures [of ?w3 down_service "''now''" docs_board]
  have "fst ?run = Inl (api_error 503 None)" by blast
  moreover from h4 push_pull_failures [of ?w3 down_service "''now''" docs_board "\<lparr>owner_login = ''acme'', repo_name = ''board''\<rparr>"]
  have "exchanges (snd (pullBoard down_service ''now'' ?w3))
          = exchanges ?w3 @ [(GET_issues ''acme'' ''board'' ''all'' 100,
                              fst (down_service (remote ?w3) (GET_issues ''acme'' ''board'' ''all'' 100)))]"
    by simp
  ultimately show ?thesis using e by (simp add: offline_world_def down_service_def)
qed

text \<open>A service that refuses every request with a given status and message, and a world with a token and a repository.\<close>

definition refusing_service :: "nat \<Rightarrow> string \<Rightarrow> unit server" where
  "refusing_service st msg s rq = (Failed st (Some msg), s)"

definition online_world :: "unit world" where
  "online_world =
     offline_world\<lparr>accessToken := Some ''ghp_x'',
                    selectedRepo := Some \<lparr>owner_login = ''acme'', repo_name = ''board''\<rparr>\<rparr>"

text \<open>
  Claim C8 says that the errors are typed and that the error of a response carries its
  status and message. The error is an \<^verbatim>\<open>Error\<close> with a message and nothing else: a push or a
  pull that is answered with 404 and one that is answered with 500 throw the same error when
  the message is the same, and a response with the message of the first guard gives the
  error that a push without a token gives, although a request was sent.
\<close>

theorem remote_failure_drops_status:
  "fst (pushBoard (refusing_service 404 ''Not Found'') ''now'' docs_board online_world) = Inl (Error ''Not Found'')
   \<and> fst (pushBoard (refusing_service 500 ''Not Found'') ''now'' docs_board online_world) = Inl (Error ''Not Found'')
   \<and> fst (pullBoard (refusing_service 404 ''Not Found'') ''now'' online_world) = Inl (Error ''Not Found'')
   \<and> fst (pullBoard (refusing_service 500 ''Not Found'') ''now'' online_world) = Inl (Error ''Not Found'')
   \<and> api_error 404 (Some ''Not Found'') = api_error 500 (Some ''Not Found'')
   \<and> exchanges (snd (pushBoard (refusing_service 401 ''Not connected to GitHub'') ''now'' docs_board online_world))
       = [(GET_issues ''acme'' ''board'' ''all'' 100, Failed 401 (Some ''Not connected to GitHub''))]
   \<and> exchanges (snd (pushBoard down_service ''now'' docs_board offline_world)) = []
   \<and> fst (pushBoard (refusing_service 401 ''Not connected to GitHub'') ''now'' docs_board online_world)
       = fst (pushBoard down_service ''now'' docs_board offline_world)"
  by code_simp

section \<open>Push and the local stores\<close>

text \<open>
  Claim C9. Push never changes the local stores: whatever the service answers, and whether
  the push returns or throws, \<^verbatim>\<open>window.kanbanBoard\<close> and \<^verbatim>\<open>window.userManager\<close> are
  afterwards what they were before. The state of the service is the one reached by the
  requests that were sent: when a request fails the push stops there and throws the error of
  that response, no request follows it, and what the earlier requests wrote stays written.
\<close>

theorem pushBoard_leaves_stores:
  assumes "pushBoard srv now kb w = (r, w')"
  shows "kanbanBoard w' = kanbanBoard w \<and> userManager w' = userManager w
       \<and> (\<exists>new. exchanges w' = exchanges w @ new
              \<and> remote w' = replay srv (remote w) (map fst new)
              \<and> (\<forall>e. r = Inl e \<longrightarrow>
                    list_all (\<lambda>x. is_ok (snd x)) (butlast new)
                    \<and> (\<forall>rq st msg. new \<noteq> [] \<and> last new = (rq, Failed st msg) \<longrightarrow> e = api_error st msg)))"
proof -
  from orderlyD [OF orderly_pushBoard assms] obtain new where
    "kanbanBoard w' = kanbanBoard w" "userManager w' = userManager w"
    "exchanges w' = exchanges w @ new" "remote w' = replay srv (remote w) (map fst new)"
    "stops_at_failure r new"
    unfolding orderly_step_def by blast
  then show ?thesis
    by (auto simp: stops_at_failure_def)
qed

text \<open>
  A service that accepts the first issue of a repository and then refuses to create more,
  and a world with a board of two tasks.
\<close>

definition limited_api :: "github server" where
  "limited_api g rq =
     (case rq of
        POST_issue owner rp ttl body labels assignees \<Rightarrow>
          if gh_issues g = [] then github_api g rq else (Failed 403 (Some ''Rate limit exceeded''), g)
      | _ \<Rightarrow> github_api g rq)"

definition two_board :: board where
  "two_board = \<lparr>tasks = [docs_task, docs_task\<lparr>task_id := 2, title := ''Fix login bug''\<rparr>], nextTaskId = 3\<rparr>"

definition alice :: user where
  "alice = \<lparr>u_id = IdNum 3, u_name = ''Alice'', u_email = ''alice@example.org'', u_role = ''developer'',
            githubUsername = None\<rparr>"

definition connected_world :: "github world" where
  "connected_world =
     \<lparr> accessToken = Some ''ghp_x'',
       selectedRepo = Some \<lparr>owner_login = ''acme'', repo_name = ''board''\<rparr>,
       syncStatus = ''idle'', lastSync = None,
       kanbanBoard = Some two_board,
       userManager = Some \<lparr>users = [alice], nextUserId = 4\<rparr>,
       remote = \<lparr>gh_issues = [], gh_labels = []\<rparr>, exchanges = [] \<rparr>"

text \<open>
  The second task of the board cannot be created: the push throws, the first issue stays in
  the repository, and the stores are untouched.
\<close>

theorem pushBoard_leaves_stores_witness:
  "fst (pushBoard limited_api ''now'' two_board connected_world) = Inl (Error ''Rate limit exceeded'')
   \<and> map i_title (gh_issues (remote (snd (pushBoard limited_api ''now'' two_board connected_world)))) = [''Write docs'']
   \<and> kanbanBoard (snd (pushBoard limited_api ''now'' two_board connected_world)) = Some two_board
   \<and> userManager (snd (pushBoard limited_api ''now'' two_board connected_world)) = Some \<lparr>users = [alice], nextUserId = 4\<rparr>"
proof -
  let ?run = "pushBoard limited_api ''now'' two_board connected_world"
  have run: "?run = (fst ?run, snd ?run)" by simp
  have a: "fst ?run = Inl (Error ''Rate limit exceeded'')" by code_simp
  have b: "map i_title (gh_issues (remote (snd ?run))) = [''Write docs'']" by code_simp
  from pushBoard_leaves_stores [OF run]
  have "kanbanBoard (snd ?run) = kanbanBoard connected_world"
    and "userManager (snd ?run) = userManager connected_world" by blast+
  then have "kanbanBoard (snd ?run) = Some two_board"
    and "userManager (snd ?run) = Some \<lparr>users = [alice], nextUserId = 4\<rparr>"
    by (simp_all add: connected_world_def)
  with a b show ?thesis by blast
qed

section \<open>Deleting a user unassigns the tasks of that user\<close>

lemma update_first_distinct:
  assumes "distinct (map key xs)"
  shows "update_first (\<lambda>t. key t = k) f xs = map (\<lambda>t. if key t = k then f t else t) xs"
  using assms
proof (induction xs)
  case Nil
  then show ?case by simp
next
  case (Cons x xs)
  show ?case
  proof (cases "key x = k")
    case True
    from Cons.prems have "key x \<notin> key ` set xs" by simp
    with True have "\<forall>t\<in>set xs. key t \<noteq> k" by blast
    then have "map (\<lambda>t. if key t = k then f t else t) xs = xs"
      by (simp add: map_idI)
    with True show ?thesis by simp
  next
    case False
    with Cons show ?thesis by simp
  qed
qed

lemma foldl_update_first:
  assumes "distinct (map key xs)" and "distinct (map key ys)" and "\<And>x. key (f x) = key x"
  shows "foldl (\<lambda>l y. update_first (\<lambda>t. key t = key y) f l) xs ys
           = map (\<lambda>t. if key t \<in> key ` set ys then f t else t) xs"
  using assms(1,2)
proof (induction ys arbitrary: xs)
  case Nil
  then show ?case by simp
next
  case (Cons y ys)
  let ?xs' = "map (\<lambda>t. if key t = key y then f t else t) xs"
  have keys: "map key ?xs' = map key xs"
    by (simp add: assms(3) cong: map_cong)
  have first: "update_first (\<lambda>t. key t = key y) f xs = ?xs'"
    using Cons.prems(1) by (rule update_first_distinct)
  have fresh: "key y \<notin> key ` set ys" using Cons.prems(2) by auto
  have "foldl (\<lambda>l y. update_first (\<lambda>t. key t = key y) f l) xs (y # ys)
          = foldl (\<lambda>l y. update_first (\<lambda>t. key t = key y) f l) ?xs' ys"
    by (simp add: first)
  also have "\<dots> = map (\<lambda>t. if key t \<in> key ` set ys then f t else t) ?xs'"
  proof (rule Cons.IH)
    show "distinct (map key ?xs')" using Cons.prems(1) by (simp only: keys)
    show "distinct (map key ys)" using Cons.prems(2) by simp
  qed
  also have "\<dots> = map (\<lambda>t. if key t \<in> key ` set (y # ys) then f t else t) xs"
    using fresh by (auto simp: assms(3))
  finally show ?case .
qed

lemma foldl_updateTask:
  "foldl (\<lambda>b t. map_option (updateTask (task_id t) upd now) b) (Some kb) ts
     = Some (kb\<lparr>tasks := foldl (\<lambda>l t. update_first (\<lambda>x. task_id x = task_id t)
                                      (\<lambda>x. (upd x)\<lparr>updatedAt := now\<rparr>) l) (tasks kb) ts\<rparr>)"
proof (induction ts arbitrary: kb)
  case Nil
  then show ?case by simp
next
  case (Cons t ts)
  let ?G = "\<lambda>b t. map_option (updateTask (task_id t) upd now) b"
  let ?H = "\<lambda>l t. update_first (\<lambda>x. task_id x = task_id t) (\<lambda>x. (upd x)\<lparr>updatedAt := now\<rparr>) l"
  let ?kb = "updateTask (task_id t) upd now kb"
  have "foldl ?G (Some kb) (t # ts) = foldl ?G (Some ?kb) ts" by simp
  also have "\<dots> = Some (?kb\<lparr>tasks := foldl ?H (tasks ?kb) ts\<rparr>)" by (rule Cons.IH)
  also have "\<dots> = Some (kb\<lparr>tasks := foldl ?H (tasks kb) (t # ts)\<rparr>)"
    by (simp add: updateTask_def)
  finally show ?case .
qed

lemma key_in_filter:
  assumes "distinct (map key xs)" and "t \<in> set xs"
  shows "key t \<in> key ` set (filter P xs) \<longleftrightarrow> P t"
proof
  assume "key t \<in> key ` set (filter P xs)"
  then obtain t' where t': "t' \<in> set xs" "P t'" "key t' = key t" by auto
  from assms(1) have "inj_on key (set xs)" by (simp add: distinct_map)
  with t' assms(2) have "t' = t" by (auto dest: inj_onD)
  with t' show "P t" by simp
next
  assume "P t"
  with assms(2) show "key t \<in> key ` set (filter P xs)" by auto
qed

text \<open>
  What \<^const>\<open>deleteUser\<close> does once it is confirmed, on a board whose task ids are distinct:
  it returns \<^verbatim>\<open>true\<close>, keeps the users whose id \<^verbatim>\<open>!==\<close> tells from the given one, and
  empties the assignee (and renews \<^verbatim>\<open>updatedAt\<close>) of the tasks whose assignee reads, through
  \<^verbatim>\<open>parseInt\<close>, as the same number as the given id; every other task is as before.
\<close>

lemma deleteUser_cascade:
  assumes "distinct (map task_id (tasks kb))"
  shows "deleteUser True now ident um (Some kb) =
           (True,
            um\<lparr>users := filter (\<lambda>u. strict_ne (u_id u) ident) (users um)\<rparr>,
            Some (kb\<lparr>tasks := map (\<lambda>t. if assigned_to ident t
                                         then t\<lparr>assignee := IdStr [], updatedAt := now\<rparr> else t)
                                   (tasks kb)\<rparr>))"
proof -
  let ?P = "assigned_to ident"
  let ?ys = "filter ?P (tasks kb)"
  let ?f = "\<lambda>x. (x\<lparr>assignee := IdStr []\<rparr>)\<lparr>updatedAt := now\<rparr>"
  have dys: "distinct (map task_id ?ys)"
    using assms by (rule distinct_map_filter)
  have "foldl (\<lambda>l t. update_first (\<lambda>x. task_id x = task_id t) ?f l) (tasks kb) ?ys
          = map (\<lambda>t. if task_id t \<in> task_id ` set ?ys then ?f t else t) (tasks kb)"
    using assms dys by (rule foldl_update_first) simp
  also have "\<dots> = map (\<lambda>t. if ?P t then t\<lparr>assignee := IdStr [], updatedAt := now\<rparr> else t) (tasks kb)"
  proof (rule map_cong [OF refl])
    fix t assume "t \<in> set (tasks kb)"
    with key_in_filter [OF assms this, of ?P]
    show "(if task_id t \<in> task_id ` set ?ys then ?f t else t)
          = (if ?P t then t\<lparr>assignee := IdStr [], updatedAt := now\<rparr> else t)"
      by simp
  qed
  finally have fold: "foldl (\<lambda>l t. update_first (\<lambda>x. task_id x = task_id t) ?f l) (tasks kb) ?ys
          = map (\<lambda>t. if ?P t then t\<lparr>assignee := IdStr [], updatedAt := now\<rparr> else t) (tasks kb)" .
  show ?thesis
  proof (cases "?ys = []")
    case True
    then have "\<forall>t\<in>set (tasks kb). \<not> ?P t" by (simp add: filter_empty_conv)
    then have "map (\<lambda>t. if ?P t then t\<lparr>assignee := IdStr [], updatedAt := now\<rparr> else t) (tasks kb) = tasks kb"
      by (simp add: map_idI)
    with True show ?thesis
      by (simp add: deleteUser_def getUserAssignedTasks_def)
  next
    case False
    then show ?thesis
      by (simp add: deleteUser_def getUserAssignedTasks_def foldl_updateTask fold)
  qed
qed

text \<open>Three tasks, the first and the third assigned to user 3, and two users.\<close>

definition plain_task :: "int \<Rightarrow> string \<Rightarrow> idval \<Rightarrow> task" where
  "plain_task n ttl a =
     \<lparr> task_id = n, title = ttl, description = JStr [], status = ''todo'', priority = JStr ''medium'',
       assignee = a, dueDate = JStr [], comments = JArr [], attachments = JArr [],
       createdAt = ''2024-01-10T09:00:00Z'', updatedAt = ''2024-01-10T09:00:00Z'',
       githubIssueNumber = None, githubUrl = None \<rparr>"

definition team_board :: board where
  "team_board =
     \<lparr> tasks = [plain_task 1 ''Write docs'' (IdStr ''3''),
                plain_task 2 ''Fix login bug'' (IdStr ''5''),
                plain_task 3 ''Release'' (IdNum 3)],
       nextTaskId = 4 \<rparr>"

definition team :: user_manager where
  "team =
     \<lparr> users = [\<lparr>u_id = IdNum 3, u_name = ''Alice'', u_email = ''alice@example.org'', u_role = ''developer'',
                  githubUsername = None\<rparr>,
                \<lparr>u_id = IdNum 5, u_name = ''Bob'', u_email = ''bob@example.org'', u_role = ''developer'',
                  githubUsername = None\<rparr>],
       nextUserId = 6 \<rparr>"

text \<open>
  With users that \<^verbatim>\<open>createUser\<close> numbered and assignees that are their ids, deleting user 3
  unassigns tasks 1 and 3, leaves task 2 with user 5, and removes the user.
\<close>

lemma deleteUser_team:
  "deleteUser True ''2024-02-01T12:00:00Z'' (IdNum 3) team (Some team_board) =
       (True,
        \<lparr> users = [\<lparr>u_id = IdNum 5, u_name = ''Bob'', u_email = ''bob@example.org'', u_role = ''developer'',
                     githubUsername = None\<rparr>],
          nextUserId = 6 \<rparr>,
        Some \<lparr> tasks = [(plain_task 1 ''Write docs'' (IdStr []))\<lparr>updatedAt := ''2024-02-01T12:00:00Z''\<rparr>,
                        plain_task 2 ''Fix login bug'' (IdStr ''5''),
                        (plain_task 3 ''Release'' (IdStr []))\<lparr>updatedAt := ''2024-02-01T12:00:00Z''\<rparr>],
               nextTaskId = 4 \<rparr>)"
  by code_simp

text \<open>
  A board on which the second task is assigned to the GitHub login \<open>3b1b\<close>, as a pull stores
  the first assignee of an issue; and a user list whose first user was loaded from a sheet
  and has the text \<open>7\<close> as its id, with a board that has a task of that user.
\<close>

definition login_board :: board where
  "login_board =
     \<lparr> tasks = [plain_task 1 ''Write docs'' (IdStr ''3''),
                plain_task 2 ''Fix login bug'' (IdStr ''3b1b''),
                plain_task 3 ''Release'' (IdStr ''5'')],
       nextTaskId = 4 \<rparr>"

definition sheet_team :: user_manager where
  "sheet_team =
     \<lparr> users = [\<lparr>u_id = IdStr ''7'', u_name = ''Carol'', u_email = ''carol@example.org'', u_role = ''Designer'',
                  githubUsername = None\<rparr>,
                \<lparr>u_id = IdNum 5, u_name = ''Bob'', u_email = ''bob@example.org'', u_role = ''developer'',
                  githubUsername = None\<rparr>],
       nextUserId = 6 \<rparr>"

definition sheet_board :: board where
  "sheet_board =
     \<lparr> tasks = [plain_task 1 ''Write docs'' (IdStr ''7''), plain_task 2 ''Release'' (IdNum 5)],
       nextTaskId = 3 \<rparr>"

text \<open>
  Claim C7 says that deleting a user, once confirmed, unassigns exactly the tasks of which
  that user is the assignee, removes the user from the user list and leaves every other task
  unchanged. The code does not, in two ways. On \<^const>\<open>login_board\<close>, deleting user 3 also
  empties the assignee of the second task, which is the login \<open>3b1b\<close> and not user 3:
  \<^verbatim>\<open>getUserAssignedTasks\<close> reads every assignee with \<^verbatim>\<open>parseInt\<close>, which stops at the first
  character that is no digit, whereas \<^verbatim>\<open>getAssigneeLogin\<close> takes the same text for a login.
  And deleting user 7 of \<^const>\<open>sheet_team\<close>, with the number that the delete button passes,
  unassigns the task of that user but keeps the user in the list, because \<^verbatim>\<open>u.id !== id\<close>
  tells the text \<open>7\<close> from the number 7, whereas \<^verbatim>\<open>getUser\<close> compares with \<^verbatim>\<open>==\<close>.
\<close>

theorem deleteUser_confuses_ids:
  "\<not> is_numeric_string ''3b1b''
   \<and> getAssigneeLogin connected_world (IdStr ''3b1b'') = Some ''3b1b''
   \<and> map task_id (getUserAssignedTasks (Some login_board) (IdNum 3)) = [1, 2]
   \<and> deleteUser True ''2024-02-01T12:00:00Z'' (IdNum 3) team (Some login_board) =
       (True,
        \<lparr> users = [\<lparr>u_id = IdNum 5, u_name = ''Bob'', u_email = ''bob@example.org'', u_role = ''developer'',
                     githubUsername = None\<rparr>],
          nextUserId = 6 \<rparr>,
        Some \<lparr> tasks = [(plain_task 1 ''Write docs'' (IdStr []))\<lparr>updatedAt := ''2024-02-01T12:00:00Z''\<rparr>,
                        (plain_task 2 ''Fix login bug'' (IdStr []))\<lparr>updatedAt := ''2024-02-01T12:00:00Z''\<rparr>,
                        plain_task 3 ''Release'' (IdStr ''5'')],
               nextTaskId = 4 \<rparr>)
   \<and> map u_name (users sheet_team) = [''Carol'', ''Bob'']
   \<and> map_option u_name (getUser sheet_team (IdNum 7)) = Some ''Carol''
   \<and> deleteUser True ''2024-02-01T12:00:00Z'' (IdNum 7) sheet_team (Some sheet_board) =
       (True,
        sheet_team,
        Some \<lparr> tasks = [(plain_task 1 ''Write docs'' (IdStr []))\<lparr>updatedAt := ''2024-02-01T12:00:00Z''\<rparr>,
                        plain_task 2 ''Release'' (IdNum 5)],
               nextTaskId = 3 \<rparr>)"
  by code_simp

section \<open>Push against the storing service\<close>

text \<open>Two worlds of the same session: the same token, repository and stores.\<close>

definition same_session :: "'s world \<Rightarrow> 's world \<Rightarrow> bool" where
  "same_session w w' \<longleftrightarrow>
     accessToken w' = accessToken w \<and> selectedRepo w' = selectedRepo w
     \<and> userManager w' = userManager w \<and> kanbanBoard w' = kanbanBoard w"

lemma same_session_refl: "same_session w w"
  by (simp add: same_session_def)

lemma same_session_trans: "same_session w w1 \<Longrightarrow> same_session w1 w2 \<Longrightarrow> same_session w w2"
  by (simp add: same_session_def)

lemma same_session_auth: "same_session w w' \<Longrightarrow> isAuthenticated w' = isAuthenticated w"
  by (simp add: same_session_def isAuthenticated_def)

lemma same_session_login:
  assumes "same_session w w'"
  shows "getAssigneeLogin w' a = getAssigneeLogin w a"
proof -
  from assms have eq: "userManager w' = userManager w" by (simp add: same_session_def)
  show ?thesis unfolding getAssigneeLogin_def eq by (rule refl)
qed

lemma same_session_push_request:
  assumes "same_session w w'"
  shows "push_request rp ex nlm w' t = push_request rp ex nlm w t"
  unfolding push_request_def same_session_login [OF assms] by (rule refl)

text \<open>The page of issues that a push or a pull sees.\<close>

definition page_issues :: "github \<Rightarrow> issue list" where
  "page_issues g = filter (\<lambda>i. \<not> i_pull_request i) (take 100 (gh_issues g))"

lemma getRepoIssues_github:
  assumes "isAuthenticated w"
  shows "\<exists>w'. getRepoIssues github_api owner rp st w = (Inr (page_issues (remote w)), w')
              \<and> remote w' = remote w \<and> same_session w w'"
  using assms
  by (simp add: getRepoIssues_def bind_io_def request_def return_io_def page_issues_def same_session_def)

lemma getRepoLabels_github:
  assumes "isAuthenticated w"
  shows "\<exists>w'. getRepoLabels github_api owner rp w = (Inr (take 100 (gh_labels (remote w))), w')
              \<and> remote w' = remote w \<and> same_session w w'"
  using assms
  by (simp add: getRepoLabels_def bind_io_def request_def return_io_def same_session_def)

text \<open>The loop over the tasks: every step is accepted, and the new issues are those of the tasks without a match.\<close>

definition unmatched :: "issue list \<Rightarrow> task list \<Rightarrow> task list" where
  "unmatched existing ts = filter (\<lambda>t. title t \<notin> i_title ` set existing) ts"

lemma find_title_None: "find (\<lambda>i. i_title i = ttl) existing = None \<longleftrightarrow> ttl \<notin> i_title ` set existing"
  by (auto simp: find_None_iff)

lemma find_title_Some: "find (\<lambda>i. i_title i = ttl) existing = Some i \<Longrightarrow> i \<in> set existing \<and> i_title i = ttl"
  by (auto simp: find_Some_iff)

text \<open>What a push can change of an issue it did not create: neither its title nor its kind.\<close>

definition issue_key :: "issue \<Rightarrow> string \<times> bool" where
  "issue_key i = (i_title i, i_pull_request i)"

definition task_key :: "task \<Rightarrow> string \<times> bool" where
  "task_key t = (title t, False)"

lemma push_task_github:
  assumes auth: "isAuthenticated w"
    and known: "i_number ` set existing \<subseteq> i_number ` set (gh_issues (remote w))"
  shows "\<exists>w'. push_task github_api rp existing nlm t w = (Inr Other, w')
           \<and> same_session w w'
           \<and> gh_labels (remote w') = gh_labels (remote w)
           \<and> i_number ` set (gh_issues (remote w)) \<subseteq> i_number ` set (gh_issues (remote w'))
           \<and> map issue_key (gh_issues (remote w')) = map task_key (unmatched existing [t]) @ map issue_key (gh_issues (remote w))"
proof (cases "find (\<lambda>i. i_title i = title t) existing")
  case None
  then have un: "unmatched existing [t] = [t]"
    by (simp add: unmatched_def find_title_None)
  from None have rq: "\<exists>body labels as. push_request rp existing nlm w t
        = POST_issue (owner_login rp) (repo_name rp) (title t) body labels as"
    by (simp add: push_request_def)
  then obtain body labels as where "push_request rp existing nlm w t
        = POST_issue (owner_login rp) (repo_name rp) (title t) body labels as" by blast
  with auth un show ?thesis
    by (auto simp: push_task_request request_def same_session_def gh_new_issue_def issue_key_def task_key_def)
next
  case (Some i)
  then have mem: "i \<in> set existing" and ttl: "i_title i = title t"
    using find_title_Some by blast+
  then have un: "unmatched existing [t] = []"
    by (force simp: unmatched_def)
  from mem have "i_number i \<in> i_number ` set existing" by (rule imageI)
  with known have "i_number i \<in> i_number ` set (gh_issues (remote w))" by (rule subsetD)
  then have ex: "list_ex (\<lambda>j. i_number j = i_number i) (gh_issues (remote w))"
    by (auto simp: list_ex_iff)
  from Some have "\<exists>upd. push_request rp existing nlm w t
        = PATCH_issue (owner_login rp) (repo_name rp) (i_number i) upd"
    by (simp add: push_request_def)
  then obtain upd where rq: "push_request rp existing nlm w t
        = PATCH_issue (owner_login rp) (repo_name rp) (i_number i) upd" by blast
  have titles: "map issue_key (map (\<lambda>j. if i_number j = i_number i then gh_update_issue (remote w) upd j else j) (gh_issues (remote w)))
          = map issue_key (gh_issues (remote w))"
    by (simp add: gh_update_issue_def issue_key_def cong: map_cong)
  have nmap: "map i_number (map (\<lambda>j. if i_number j = i_number i then gh_update_issue (remote w) upd j else j) (gh_issues (remote w)))
          = map i_number (gh_issues (remote w))"
    by (simp add: gh_update_issue_def cong: map_cong)
  have numbers: "i_number ` set (map (\<lambda>j. if i_number j = i_number i then gh_update_issue (remote w) upd j else j) (gh_issues (remote w)))
          = i_number ` set (gh_issues (remote w))"
    using arg_cong [OF nmap, of set] by (simp only: set_map)
  from auth ex rq un titles numbers show ?thesis
    by (simp add: push_task_request request_def same_session_def)
qed


lemma unmatched_Cons: "unmatched existing (t # ts) = unmatched existing [t] @ unmatched existing ts"
  by (simp add: unmatched_def)

lemma unmatched_single_rev: "rev (map task_key (unmatched existing [t])) = map task_key (unmatched existing [t])"
  by (simp add: unmatched_def)

lemma push_loop_github:
  assumes "isAuthenticated w"
    and "i_number ` set existing \<subseteq> i_number ` set (gh_issues (remote w))"
  shows "\<exists>w'. push_loop github_api rp existing nlm ts w = (Inr (), w')
           \<and> same_session w w'
           \<and> gh_labels (remote w') = gh_labels (remote w)
           \<and> map issue_key (gh_issues (remote w'))
               = rev (map task_key (unmatched existing ts)) @ map issue_key (gh_issues (remote w))"
  using assms
proof (induction ts arbitrary: w)
  case Nil
  then show ?case
    by (simp add: return_io_def same_session_refl unmatched_def)
next
  case (Cons t ts)
  from push_task_github [OF Cons.prems, of rp nlm t] obtain w1 where
    step: "push_task github_api rp existing nlm t w = (Inr Other, w1)"
    and ss1: "same_session w w1"
    and lb1: "gh_labels (remote w1) = gh_labels (remote w)"
    and nb1: "i_number ` set (gh_issues (remote w)) \<subseteq> i_number ` set (gh_issues (remote w1))"
    and tt1: "map issue_key (gh_issues (remote w1)) = map task_key (unmatched existing [t]) @ map issue_key (gh_issues (remote w))"
    by blast
  have auth1: "isAuthenticated w1"
    using Cons.prems(1) ss1 by (simp add: same_session_auth)
  have known1: "i_number ` set existing \<subseteq> i_number ` set (gh_issues (remote w1))"
    using Cons.prems(2) nb1 by (rule subset_trans)
  from Cons.IH [OF auth1 known1] obtain w' where
    rest: "push_loop github_api rp existing nlm ts w1 = (Inr (), w')"
    and ss2: "same_session w1 w'"
    and lb2: "gh_labels (remote w') = gh_labels (remote w1)"
    and tt2: "map issue_key (gh_issues (remote w'))
               = rev (map task_key (unmatched existing ts)) @ map issue_key (gh_issues (remote w1))"
    by blast
  have run: "push_loop github_api rp existing nlm (t # ts) w = (Inr (), w')"
    by (simp add: bind_io_def step rest)
  have keys: "map issue_key (gh_issues (remote w'))
               = rev (map task_key (unmatched existing (t # ts))) @ map issue_key (gh_issues (remote w))"
    by (simp only: tt2 tt1 unmatched_Cons [of existing t ts] map_append rev_append
          unmatched_single_rev append_assoc)
  from run same_session_trans [OF ss1 ss2] lb1 lb2 keys show ?case by simp
qed

text \<open>The titles, and the issues that are pull requests, read off the keys.\<close>

lemma keys_titles:
  assumes "map issue_key xs = rev (map task_key us) @ map issue_key ys"
  shows "map i_title xs = rev (map title us) @ map i_title ys"
proof -
  have "map fst (map issue_key xs) = map fst (rev (map task_key us) @ map issue_key ys)"
    by (simp only: assms)
  then show ?thesis by (simp add: issue_key_def task_key_def comp_def rev_map)
qed

lemma keys_no_pr:
  assumes "map issue_key xs = rev (map task_key us) @ map issue_key ys"
    and "list_all (\<lambda>i. \<not> i_pull_request i) ys"
  shows "list_all (\<lambda>i. \<not> i_pull_request i) xs"
proof -
  have "map snd (map issue_key xs) = map snd (rev (map task_key us) @ map issue_key ys)"
    by (simp only: assms(1))
  then have flags: "map i_pull_request xs = replicate (length us) False @ map i_pull_request ys"
    by (simp add: issue_key_def task_key_def comp_def rev_map map_replicate_const)
  have "\<forall>b\<in>set (map i_pull_request xs). \<not> b"
    unfolding flags using assms(2) by (auto simp: list_all_iff)
  then show ?thesis by (simp add: list_all_iff)
qed

text \<open>The status labels: those that the first page does not show are created.\<close>

definition lower_names :: "label list \<Rightarrow> string list" where
  "lower_names ls = map (\<lambda>l. toLowerCase (l_name l)) ls"

lemma make_labelMap_fold:
  "foldl (\<lambda>m l. m(toLowerCase (l_name l) \<mapsto> l)) m0 ls st = None
     \<longleftrightarrow> m0 st = None \<and> st \<notin> set (lower_names ls)"
  by (induction ls arbitrary: m0) (auto simp: lower_names_def)

lemma make_labelMap_None: "make_labelMap ls st = None \<longleftrightarrow> st \<notin> set (lower_names ls)"
  by (simp add: make_labelMap_def make_labelMap_fold)

definition status_label :: "string \<Rightarrow> label" where
  "status_label st = \<lparr>l_name = st, l_color = label_color st\<rparr>"

lemma create_status_labels_github:
  assumes "isAuthenticated w"
    and "distinct sts"
    and "\<forall>st\<in>set sts. toLowerCase st = st"
    and "\<forall>st\<in>set sts. labelMap st = None \<longrightarrow> st \<notin> set (lower_names (gh_labels (remote w)))"
  shows "\<exists>w'. create_status_labels github_api rp labelMap sts w = (Inr (), w')
           \<and> same_session w w'
           \<and> gh_issues (remote w') = gh_issues (remote w)
           \<and> gh_labels (remote w')
               = gh_labels (remote w) @ map status_label (filter (\<lambda>st. labelMap st = None) sts)"
  using assms
proof (induction sts arbitrary: w)
  case Nil
  then show ?case by (simp add: return_io_def same_session_refl)
next
  case (Cons st sts)
  have low: "toLowerCase st = st" using Cons.prems(3) by simp
  show ?case
  proof (cases "labelMap st = None")
    case False
    from Cons.prems have ih: "\<exists>w'. create_status_labels github_api rp labelMap sts w = (Inr (), w')
           \<and> same_session w w'
           \<and> gh_issues (remote w') = gh_issues (remote w)
           \<and> gh_labels (remote w')
               = gh_labels (remote w) @ map status_label (filter (\<lambda>st. labelMap st = None) sts)"
      by (intro Cons.IH) simp_all
    from False obtain l where some: "labelMap st = Some l" by auto
    have run: "create_status_labels github_api rp labelMap (st # sts) w
               = create_status_labels github_api rp labelMap sts w"
      by (simp add: bind_io_def return_io_def some)
    have filt: "filter (\<lambda>st. labelMap st = None) (st # sts) = filter (\<lambda>st. labelMap st = None) sts"
      by (simp add: some)
    show ?thesis unfolding run filt by (rule ih)
  next
    case True
    with Cons.prems(4) have absent: "st \<notin> set (lower_names (gh_labels (remote w)))" by simp
    then have "\<not> list_ex (\<lambda>l. toLowerCase (l_name l) = toLowerCase st) (gh_labels (remote w))"
      by (auto simp: low list_ex_iff lower_names_def)
    with Cons.prems(1) obtain w1 where
      post: "createLabel github_api (owner_login rp) (repo_name rp) st (label_color st) w = (Inr Other, w1)"
      and ss1: "same_session w w1"
      and is1: "gh_issues (remote w1) = gh_issues (remote w)"
      and lb1: "gh_labels (remote w1) = gh_labels (remote w) @ [status_label st]"
      by (simp add: createLabel_def request_def same_session_def status_label_def)
    have auth1: "isAuthenticated w1" using Cons.prems(1) ss1 by (simp add: same_session_auth)
    have absent1: "\<forall>s\<in>set sts. labelMap s = None \<longrightarrow> s \<notin> set (lower_names (gh_labels (remote w1)))"
    proof (intro ballI impI)
      fix s assume s: "s \<in> set sts" and n: "labelMap s = None"
      with Cons.prems(4) have "s \<notin> set (lower_names (gh_labels (remote w)))" by simp
      moreover from s Cons.prems(2) have "s \<noteq> st" by auto
      ultimately show "s \<notin> set (lower_names (gh_labels (remote w1)))"
        by (simp add: lb1 lower_names_def status_label_def low)
    qed
    from Cons.prems(2,3) have "distinct sts" and "\<forall>st\<in>set sts. toLowerCase st = st" by simp_all
    from Cons.IH [OF auth1 this absent1] obtain w' where
      rest: "create_status_labels github_api rp labelMap sts w1 = (Inr (), w')"
      and ss2: "same_session w1 w'"
      and is2: "gh_issues (remote w') = gh_issues (remote w1)"
      and lb2: "gh_labels (remote w')
               = gh_labels (remote w1) @ map status_label (filter (\<lambda>st. labelMap st = None) sts)"
      by blast
    have run: "create_status_labels github_api rp labelMap (st # sts) w = (Inr (), w')"
      using True by (simp add: bind_io_def return_io_def post rest)
    from run same_session_trans [OF ss1 ss2] is1 is2 lb1 lb2 True show ?thesis by simp
  qed
qed


lemma statusLabels_distinct: "distinct statusLabels"
  by (simp add: statusLabels_def)

lemma statusLabels_lower: "\<forall>st\<in>set statusLabels. toLowerCase st = st"
  by code_simp

lemma page_issues_known: "i_number ` set (page_issues g) \<subseteq> i_number ` set (gh_issues g)"
  by (auto simp: page_issues_def dest: in_set_takeD)

text \<open>
  A push against the storing service, with a token, a repository and at most 100 labels in
  it: it returns, the new issues are those of the tasks whose title is not on the first page
  of issues, and the new labels are the status labels that the repository did not have.
\<close>

lemma pushBoard_github:
  assumes auth: "isAuthenticated w" and repo: "selectedRepo w = Some rp"
    and fits: "length (gh_labels (remote w)) \<le> 100"
  shows "\<exists>w'. pushBoard github_api now kb w = (Inr (length (tasks kb)), w')
           \<and> same_session w w'
           \<and> map issue_key (gh_issues (remote w'))
               = rev (map task_key (unmatched (page_issues (remote w)) (tasks kb))) @ map issue_key (gh_issues (remote w))
           \<and> gh_labels (remote w')
               = gh_labels (remote w)
                 @ map status_label (filter (\<lambda>st. st \<notin> set (lower_names (gh_labels (remote w)))) statusLabels)"
proof -
  let ?w0 = "w\<lparr>syncStatus := ''syncing''\<rparr>"
  let ?o = "owner_login rp" and ?n = "repo_name rp"
  let ?L = "gh_labels (remote w)"
  have auth0: "isAuthenticated ?w0" using auth by (simp add: isAuthenticated_def)
  have ss0: "same_session w ?w0" by (simp add: same_session_def)
  from getRepoIssues_github [OF auth0, of ?o ?n "''all''"] obtain w1 where
    p1: "getRepoIssues github_api ?o ?n ''all'' ?w0 = (Inr (page_issues (remote w)), w1)"
    and r1: "remote w1 = remote w" and ss1: "same_session ?w0 w1" by auto
  have auth1: "isAuthenticated w1" using auth0 ss1 by (simp add: same_session_auth)
  from getRepoLabels_github [OF auth1, of ?o ?n] obtain w2 where
    p2: "getRepoLabels github_api ?o ?n w1 = (Inr (take 100 (gh_labels (remote w1))), w2)"
    and r2: "remote w2 = remote w1" and ss2: "same_session w1 w2" by auto
  have take: "take 100 (gh_labels (remote w1)) = ?L" using fits r1 by simp
  have auth2: "isAuthenticated w2" using auth1 ss2 by (simp add: same_session_auth)
  have absent: "\<forall>st\<in>set statusLabels. make_labelMap ?L st = None
                  \<longrightarrow> st \<notin> set (lower_names (gh_labels (remote w2)))"
    by (simp add: make_labelMap_None r1 r2)
  from create_status_labels_github [OF auth2 statusLabels_distinct statusLabels_lower absent, of rp]
  obtain w3 where
    p3: "create_status_labels github_api rp (make_labelMap ?L) statusLabels w2 = (Inr (), w3)"
    and ss3: "same_session w2 w3"
    and i3: "gh_issues (remote w3) = gh_issues (remote w2)"
    and l3: "gh_labels (remote w3)
               = gh_labels (remote w2) @ map status_label (filter (\<lambda>st. make_labelMap ?L st = None) statusLabels)"
    by blast
  have auth3: "isAuthenticated w3" using auth2 ss3 by (simp add: same_session_auth)
  from getRepoLabels_github [OF auth3, of ?o ?n] obtain w4 where
    p4: "getRepoLabels github_api ?o ?n w3 = (Inr (take 100 (gh_labels (remote w3))), w4)"
    and r4: "remote w4 = remote w3" and ss4: "same_session w3 w4" by auto
  have auth4: "isAuthenticated w4" using auth3 ss4 by (simp add: same_session_auth)
  have issues4: "gh_issues (remote w4) = gh_issues (remote w)" by (simp add: r4 i3 r2 r1)
  have known: "i_number ` set (page_issues (remote w)) \<subseteq> i_number ` set (gh_issues (remote w4))"
    by (simp only: issues4 page_issues_known)
  let ?nlm = "make_newLabelMap (take 100 (gh_labels (remote w3)))"
  from push_loop_github [OF auth4 known, of rp ?nlm "tasks kb"] obtain w5 where
    p5: "push_loop github_api rp (page_issues (remote w)) ?nlm (tasks kb) w4 = (Inr (), w5)"
    and ss5: "same_session w4 w5"
    and l5: "gh_labels (remote w5) = gh_labels (remote w4)"
    and t5: "map issue_key (gh_issues (remote w5))
               = rev (map task_key (unmatched (page_issues (remote w)) (tasks kb))) @ map issue_key (gh_issues (remote w4))"
    by blast
  let ?w' = "w5\<lparr>syncStatus := ''success'', lastSync := Some now\<rparr>"
  have tried: "push_try github_api now rp kb ?w0 = (Inr (length (tasks kb)), ?w')"
    by (simp add: push_try_def bind_io_def p1 p2 take p3 p4 p5)
  have run: "pushBoard github_api now kb w = (Inr (length (tasks kb)), ?w')"
    using auth repo by (simp add: pushBoard_def isConnected_def tried)
  have ss: "same_session w ?w'"
    using ss0 ss1 ss2 ss3 ss4 ss5 by (simp add: same_session_def)
  have keys: "map issue_key (gh_issues (remote ?w'))
               = rev (map task_key (unmatched (page_issues (remote w)) (tasks kb))) @ map issue_key (gh_issues (remote w))"
    by (simp add: t5 issues4)
  have labels: "gh_labels (remote ?w')
               = ?L @ map status_label (filter (\<lambda>st. st \<notin> set (lower_names ?L)) statusLabels)"
    by (simp add: l5 r4 l3 r2 r1 make_labelMap_None)
  from run ss keys labels show ?thesis by blast
qed

lemma unmatched_Nil_existing: "unmatched [] ts = ts"
  by (simp add: unmatched_def)

lemma unmatched_all: "title ` set ts \<subseteq> i_title ` set existing \<Longrightarrow> unmatched existing ts = []"
  by (auto simp: unmatched_def filter_empty_conv)

lemma page_issues_all:
  assumes "list_all (\<lambda>i. \<not> i_pull_request i) (gh_issues g)"
  shows "page_issues g = take 100 (gh_issues g)"
proof -
  have "\<forall>i\<in>set (take 100 (gh_issues g)). \<not> i_pull_request i"
    using assms by (auto simp: list_all_iff dest: in_set_takeD)
  then show ?thesis by (simp add: page_issues_def)
qed

lemma length_status_filter: "length (filter P statusLabels) \<le> 4"
proof -
  have "length (filter P statusLabels) \<le> length statusLabels" by (rule length_filter_le)
  then show ?thesis by (simp add: statusLabels_def)
qed

lemma lower_names_status:
  "set (lower_names (ls @ map status_label (filter (\<lambda>st. st \<notin> set (lower_names ls)) statusLabels)))
     \<supseteq> set statusLabels"
proof
  fix st assume st: "st \<in> set statusLabels"
  with statusLabels_lower have low: "toLowerCase st = st" by blast
  show "st \<in> set (lower_names (ls @ map status_label (filter (\<lambda>st. st \<notin> set (lower_names ls)) statusLabels)))"
  proof (cases "st \<in> set (lower_names ls)")
    case True
    then show ?thesis by (simp add: lower_names_def)
  next
    case False
    let ?F = "filter (\<lambda>st. st \<notin> set (lower_names ls)) statusLabels"
    from False st have "st \<in> set ?F" by simp
    then have "toLowerCase st \<in> set (map toLowerCase ?F)" by (simp only: set_map imageI)
    moreover have "lower_names (map status_label ?F) = map toLowerCase ?F"
      by (simp add: lower_names_def status_label_def comp_def)
    ultimately have "st \<in> set (lower_names (map status_label ?F))" by (simp only: low)
    then show ?thesis by (simp add: lower_names_def)
  qed
qed

lemma page_issues_short: "length (gh_issues g) \<le> 100 \<Longrightarrow> page_issues g = filter (\<lambda>i. \<not> i_pull_request i) (gh_issues g)"
  by (simp add: page_issues_def)

lemma page_issues_titles:
  "i_title ` set (filter (\<lambda>i. \<not> i_pull_request i) xs) = {ttl. (ttl, False) \<in> set (map issue_key xs)}"
  by (auto simp: issue_key_def image_iff)

text \<open>
  From an empty repository, with 101 tasks of which the first has a title of its own: the
  first push creates 101 issues, the page of the second push shows the 100 newest of them,
  and the second push creates the issue of the first task again.
\<close>

lemma push_twice_beyond_page:
  assumes auth: "isAuthenticated w" and repo: "selectedRepo w = Some rp"
    and empty: "gh_issues (remote w) = []" "gh_labels (remote w) = []"
    and board: "tasks kb = t1 # rest" and len: "length rest = 100"
    and own: "title t1 \<notin> title ` set rest"
  shows "\<exists>w1 w2. pushBoard github_api now kb w = (Inr 101, w1)
           \<and> pushBoard github_api now' kb w1 = (Inr 101, w2)
           \<and> map i_title (gh_issues (remote w1)) = rev (map title (tasks kb))
           \<and> map i_title (gh_issues (remote w2)) = title t1 # rev (map title (tasks kb))"
proof -
  have n: "length (tasks kb) = 101" by (simp add: board len)
  have l100: "length (gh_labels (remote w)) \<le> 100" by (simp add: empty)
  have nopr: "list_all (\<lambda>i. \<not> i_pull_request i) (gh_issues (remote w))" by (simp add: empty)
  from pushBoard_github [OF auth repo l100, of now kb] obtain w1 where
    run1: "pushBoard github_api now kb w = (Inr (length (tasks kb)), w1)"
    and ss1: "same_session w w1"
    and k1: "map issue_key (gh_issues (remote w1))
               = rev (map task_key (unmatched (page_issues (remote w)) (tasks kb))) @ map issue_key (gh_issues (remote w))"
    and l1: "gh_labels (remote w1)
               = gh_labels (remote w) @ map status_label (filter (\<lambda>st. st \<notin> set (lower_names (gh_labels (remote w)))) statusLabels)"
    by blast
  note t1 = keys_titles [OF k1] and nopr1 = keys_no_pr [OF k1 nopr]
  have titles1: "map i_title (gh_issues (remote w1)) = rev (map title (tasks kb))"
    by (simp add: t1 empty page_issues_def unmatched_Nil_existing)
  have auth1: "isAuthenticated w1" using auth ss1 by (simp add: same_session_auth)
  have repo1: "selectedRepo w1 = Some rp" using repo ss1 by (simp add: same_session_def)
  have l1_100: "length (gh_labels (remote w1)) \<le> 100"
    using length_status_filter [of "\<lambda>st. st \<notin> set (lower_names (gh_labels (remote w)))"]
    by (simp add: l1 empty)
  have "map i_title (page_issues (remote w1)) = take 100 (map i_title (gh_issues (remote w1)))"
    by (simp add: page_issues_all [OF nopr1] take_map)
  also have "\<dots> = rev (map title rest)"
    by (simp add: titles1 board len)
  finally have page1: "i_title ` set (page_issues (remote w1)) = title ` set rest"
    using arg_cong [of _ _ set] by (metis set_map set_rev)
  have un: "unmatched (page_issues (remote w1)) (tasks kb) = [t1]"
    using own by (simp add: unmatched_def board page1 filter_empty_conv)
  from pushBoard_github [OF auth1 repo1 l1_100, of now' kb] obtain w2 where
    run2: "pushBoard github_api now' kb w1 = (Inr (length (tasks kb)), w2)"
    and k2: "map issue_key (gh_issues (remote w2))
               = rev (map task_key (unmatched (page_issues (remote w1)) (tasks kb))) @ map issue_key (gh_issues (remote w1))"
    by blast
  note t2 = keys_titles [OF k2]
  from run1 run2 t2 titles1 un n show ?thesis by simp
qed


section \<open>Assignees that cannot be resolved\<close>





























section \<open>Pushing the same board twice\<close>

text \<open>
  As long as everything is on the one page that the adapter reads, the second push of an
  unchanged board finds what the first one wrote. On a service that stores what it is sent,
  with a token and a repository selected: when the issues of the repository (pull requests
  among them) and the tasks of the board are together at most 100, and the repository has
  at most 96 labels, both pushes return and the second creates nothing. Every task has the
  title of an issue on the page of the second push, all four status labels exist after the
  first push, and the second push leaves the number of issues, their titles and the labels
  of the repository as they were.
\<close>

lemma push_twice_on_one_page:
  assumes auth: "isAuthenticated w" and repo: "selectedRepo w = Some rp"
    and labels: "length (gh_labels (remote w)) \<le> 96"
    and fit: "length (gh_issues (remote w)) + length (tasks kb) \<le> 100"
  shows "\<exists>w1 w2. pushBoard github_api now kb w = (Inr (length (tasks kb)), w1)
           \<and> pushBoard github_api now' kb w1 = (Inr (length (tasks kb)), w2)
           \<and> (\<forall>t\<in>set (tasks kb). title t \<in> i_title ` set (page_issues (remote w1)))
           \<and> set statusLabels \<subseteq> set (lower_names (gh_labels (remote w1)))
           \<and> length (gh_issues (remote w2)) = length (gh_issues (remote w1))
           \<and> map i_title (gh_issues (remote w2)) = map i_title (gh_issues (remote w1))
           \<and> gh_labels (remote w2) = gh_labels (remote w1)"
proof -
  let ?g = "remote w"
  let ?U = "unmatched (page_issues ?g) (tasks kb)"
  from labels have l100: "length (gh_labels ?g) \<le> 100" by simp
  from pushBoard_github [OF auth repo l100, of now kb] obtain w1 where
    run1: "pushBoard github_api now kb w = (Inr (length (tasks kb)), w1)"
    and ss1: "same_session w w1"
    and k1: "map issue_key (gh_issues (remote w1)) = rev (map task_key ?U) @ map issue_key (gh_issues ?g)"
    and l1: "gh_labels (remote w1)
               = gh_labels ?g @ map status_label (filter (\<lambda>st. st \<notin> set (lower_names (gh_labels ?g))) statusLabels)"
    by blast
  have auth1: "isAuthenticated w1" using auth ss1 by (simp add: same_session_auth)
  have repo1: "selectedRepo w1 = Some rp" using repo ss1 by (simp add: same_session_def)
  have l1_100: "length (gh_labels (remote w1)) \<le> 100"
    using labels length_status_filter [of "\<lambda>st. st \<notin> set (lower_names (gh_labels ?g))"]
    by (simp add: l1)
  have "length (map issue_key (gh_issues (remote w1))) \<le> length (tasks kb) + length (gh_issues ?g)"
    unfolding k1 unmatched_def by (simp add: le_trans [OF length_filter_le])
  with fit have len1: "length (gh_issues (remote w1)) \<le> 100" by simp
  from fit have len0: "length (gh_issues ?g) \<le> 100" by simp
  note page0 = page_issues_short [OF len0] and page1 = page_issues_short [OF len1]
  have matched: "\<forall>t\<in>set (tasks kb). title t \<in> i_title ` set (page_issues (remote w1))"
  proof
    fix t assume t: "t \<in> set (tasks kb)"
    have "(title t, False) \<in> set (map issue_key (gh_issues (remote w1)))"
    proof (cases "title t \<in> i_title ` set (page_issues ?g)")
      case True
      then have "(title t, False) \<in> set (map issue_key (gh_issues ?g))"
        by (simp only: page0 page_issues_titles mem_Collect_eq)
      then show ?thesis by (simp only: k1 set_append UnI2)
    next
      case False
      with t have "t \<in> set ?U" by (simp add: unmatched_def)
      then have "task_key t \<in> set (rev (map task_key ?U))" by simp
      then have "(title t, False) \<in> set (rev (map task_key ?U))" by (simp only: task_key_def)
      then show ?thesis by (simp only: k1 set_append UnI1)
    qed
    then show "title t \<in> i_title ` set (page_issues (remote w1))"
      by (simp only: page1 page_issues_titles mem_Collect_eq)
  qed
  then have none: "unmatched (page_issues (remote w1)) (tasks kb) = []"
    by (intro unmatched_all) blast
  have status: "set statusLabels \<subseteq> set (lower_names (gh_labels (remote w1)))"
    unfolding l1 by (rule lower_names_status)
  then have present: "filter (\<lambda>st. st \<notin> set (lower_names (gh_labels (remote w1)))) statusLabels = []"
    by (auto simp: filter_empty_conv)
  from pushBoard_github [OF auth1 repo1 l1_100, of now' kb] obtain w2 where
    run2: "pushBoard github_api now' kb w1 = (Inr (length (tasks kb)), w2)"
    and k2: "map issue_key (gh_issues (remote w2))
               = rev (map task_key (unmatched (page_issues (remote w1)) (tasks kb))) @ map issue_key (gh_issues (remote w1))"
    and l2: "gh_labels (remote w2)
               = gh_labels (remote w1)
                 @ map status_label (filter (\<lambda>st. st \<notin> set (lower_names (gh_labels (remote w1)))) statusLabels)"
    by blast
  from keys_titles [OF k2] have titles: "map i_title (gh_issues (remote w2)) = map i_title (gh_issues (remote w1))"
    by (simp add: none)
  from arg_cong [OF titles, of length] have count: "length (gh_issues (remote w2)) = length (gh_issues (remote w1))"
    by simp
  from l2 have same: "gh_labels (remote w2) = gh_labels (remote w1)"
    by (simp add: present)
  from run1 run2 matched status count titles same show ?thesis by blast
qed

text \<open>A board of 101 tasks, titled \<open>Task 1\<close> to \<open>Task 101\<close>, and a world with an empty repository.\<close>

definition numbered_task :: "nat \<Rightarrow> task" where
  "numbered_task k =
     \<lparr> task_id = int k, title = ''Task '' @ show_nat k, description = JStr ''One of many'',
       status = ''todo'', priority = JStr ''medium'', assignee = IdStr [],
       dueDate = JStr [], comments = JArr [], attachments = JArr [],
       createdAt = ''2024-01-10T09:00:00Z'', updatedAt = ''2024-01-10T09:00:00Z'',
       githubIssueNumber = None, githubUrl = None \<rparr>"

definition big_board :: board where
  "big_board = \<lparr>tasks = numbered_task 1 # map numbered_task [2..<102], nextTaskId = 102\<rparr>"

definition empty_repo_world :: "github world" where
  "empty_repo_world =
     \<lparr> accessToken = Some ''ghp_x'',
       selectedRepo = Some \<lparr>owner_login = ''acme'', repo_name = ''board''\<rparr>,
       syncStatus = ''idle'', lastSync = None,
       kanbanBoard = None, userManager = None,
       remote = \<lparr>gh_issues = [], gh_labels = []\<rparr>, exchanges = [] \<rparr>"

text \<open>
  Claim C4 says that for every task list the second of two pushes creates no issue, every
  task being matched by its title to an existing issue, which is updated. The adapter looks
  for the existing issue of a task in order to update it, but it asks for one page of 100
  issues and reads no further page. For this board both pushes return, the first leaves
  101 issues, one of them titled \<open>Task 1\<close>, and the second does not see that issue and
  creates another with the same title, so that the repository has 102 issues.
\<close>

theorem second_push_creates_duplicate:
  "fst (pushBoard github_api ''t1'' big_board empty_repo_world) = Inr 101
   \<and> fst (pushBoard github_api ''t2'' big_board
            (snd (pushBoard github_api ''t1'' big_board empty_repo_world))) = Inr 101
   \<and> length (gh_issues (remote (snd (pushBoard github_api ''t1'' big_board empty_repo_world)))) = 101
   \<and> ''Task 1'' \<in> set (map i_title (gh_issues (remote (snd (pushBoard github_api ''t1'' big_board empty_repo_world)))))
   \<and> map i_title (gh_issues (remote (snd (pushBoard github_api ''t2'' big_board
            (snd (pushBoard github_api ''t1'' big_board empty_repo_world))))))
       = ''Task 1'' # map i_title (gh_issues (remote (snd (pushBoard github_api ''t1'' big_board empty_repo_world))))
   \<and> length (gh_issues (remote (snd (pushBoard github_api ''t2'' big_board
            (snd (pushBoard github_api ''t1'' big_board empty_repo_world)))))) = 102"
proof -
  let ?rp = "\<lparr>owner_login = ''acme'', repo_name = ''board''\<rparr>"
  let ?rest = "map numbered_task [2..<102]"
  have auth: "isAuthenticated empty_repo_world"
    by (simp add: empty_repo_world_def isAuthenticated_def)
  have repo: "selectedRepo empty_repo_world = Some ?rp"
    by (simp add: empty_repo_world_def)
  have e1: "gh_issues (remote empty_repo_world) = []" and e2: "gh_labels (remote empty_repo_world) = []"
    by (simp_all add: empty_repo_world_def)
  have board: "tasks big_board = numbered_task 1 # ?rest"
    by (simp add: big_board_def)
  have len: "length ?rest = 100" by simp
  have own: "title (numbered_task 1) \<notin> title ` set ?rest" by code_simp
  have t1: "title (numbered_task 1) = ''Task 1''" by code_simp
  from push_twice_beyond_page [OF auth repo e1 e2 board len own, of "''t1''" "''t2''"]
  obtain w1 w2 where
    run1: "pushBoard github_api ''t1'' big_board empty_repo_world = (Inr 101, w1)"
    and run2: "pushBoard github_api ''t2'' big_board w1 = (Inr 101, w2)"
    and titles1: "map i_title (gh_issues (remote w1)) = rev (map title (tasks big_board))"
    and titles2: "map i_title (gh_issues (remote w2)) = title (numbered_task 1) # rev (map title (tasks big_board))"
    by (elim exE conjE)
  have "length (map i_title (gh_issues (remote w1))) = 101"
    by (simp only: titles1 board) simp
  then have n1: "length (gh_issues (remote w1)) = 101" by simp
  have "title (numbered_task 1) \<in> set (map title (tasks big_board))"
    unfolding board by (simp only: list.map list.set insertI1)
  then have m1: "''Task 1'' \<in> set (map i_title (gh_issues (remote w1)))"
    by (simp only: titles1 set_rev t1)
  have m2: "map i_title (gh_issues (remote w2)) = ''Task 1'' # map i_title (gh_issues (remote w1))"
    by (simp only: titles2 titles1 t1)
  from arg_cong [OF m2, of length] n1 have n2: "length (gh_issues (remote w2)) = 102" by simp
  from n1 m1 m2 n2 show ?thesis by (simp add: run1 run2)
qed

text \<open>
  The labels are read in the same way. In a repository with 97 labels the first push
  creates the four status labels, of which the page of the second push shows three: the
  second push tries to create the fourth again, the service refuses it, and the push fails.
\<close>

definition labelled_world :: "github world" where
  "labelled_world =
     connected_world\<lparr>remote := \<lparr>gh_issues = [],
        gh_labels = map (\<lambda>k. \<lparr>l_name = ''area '' @ show_nat k, l_color = ''ededed''\<rparr>) [1..<98]\<rparr>\<rparr>"

lemma second_push_fails_on_labels:
  "length (gh_labels (remote labelled_world)) = 97
   \<and> fst (pushBoard github_api ''t1'' docs_board labelled_world) = Inr 1
   \<and> fst (pushBoard github_api ''t2'' docs_board (snd (pushBoard github_api ''t1'' docs_board labelled_world)))
       = Inl (Error ''Validation Failed'')"
  by code_simp

text \<open>
  A repository that holds a pull request titled like the first task, an issue titled like the
  second, and a label \<open>Done\<close>.
\<close>

definition docs_pull_request :: issue where
  "docs_pull_request =
     \<lparr> i_number = 8, i_title = ''Write docs'', i_body = None, i_labels = [],
       i_assignees = [], i_created_at = ''2024-01-12T09:00:00Z'',
       i_updated_at = ''2024-01-12T09:00:00Z'',
       i_html_url = ''https://github.com/acme/board/pull/8'', i_pull_request = True \<rparr>"

definition busy_world :: "github world" where
  "busy_world =
     connected_world\<lparr>remote := \<lparr>gh_issues = [docs_pull_request, login_issue None],
                                 gh_labels = [\<lparr>l_name = ''Done'', l_color = ''3fb950''\<rparr>]\<rparr>\<rparr>"

text \<open>
  The first push updates the issue of the second task and creates one for the first, whose
  title only the pull request has, and three status labels; the second push creates nothing.
\<close>

lemma push_twice_on_one_page_example:
  "fst (pushBoard github_api ''t1'' two_board busy_world) = Inr 2
   \<and> fst (pushBoard github_api ''t2'' two_board (snd (pushBoard github_api ''t1'' two_board busy_world))) = Inr 2
   \<and> map i_title (gh_issues (remote (snd (pushBoard github_api ''t1'' two_board busy_world))))
       = [''Write docs'', ''Write docs'', ''Fix login bug'']
   \<and> map l_name (gh_labels (remote (snd (pushBoard github_api ''t1'' two_board busy_world))))
       = [''Done'', ''backlog'', ''to do'', ''in progress'']
   \<and> length (gh_issues (remote (snd (pushBoard github_api ''t2'' two_board
                (snd (pushBoard github_api ''t1'' two_board busy_world)))))) = 3
   \<and> map i_title (gh_issues (remote (snd (pushBoard github_api ''t2'' two_board
                (snd (pushBoard github_api ''t1'' two_board busy_world))))))
       = [''Write docs'', ''Write docs'', ''Fix login bug'']
   \<and> map l_name (gh_labels (remote (snd (pushBoard github_api ''t2'' two_board
                (snd (pushBoard github_api ''t1'' two_board busy_world))))))
       = [''Done'', ''backlog'', ''to do'', ''in progress'']"
proof -
  let ?rp = "\<lparr>owner_login = ''acme'', repo_name = ''board''\<rparr>"
  let ?P1 = "pushBoard github_api ''t1'' two_board busy_world"
  have auth: "isAuthenticated busy_world" by code_simp
  have repo: "selectedRepo busy_world = Some ?rp" by code_simp
  have labels: "length (gh_labels (remote busy_world)) \<le> 96" by code_simp
  have fit: "length (gh_issues (remote busy_world)) + length (tasks two_board) \<le> 100" by code_simp
  have n: "length (tasks two_board) = 2" by code_simp
  have titles1: "map i_title (gh_issues (remote (snd ?P1))) = [''Write docs'', ''Write docs'', ''Fix login bug'']"
    by code_simp
  have labels1: "map l_name (gh_labels (remote (snd ?P1))) = [''Done'', ''backlog'', ''to do'', ''in progress'']"
    by code_simp
  from push_twice_on_one_page [OF auth repo labels fit, of "''t1''" "''t2''"]
  obtain w1 w2 where
    run1: "?P1 = (Inr (length (tasks two_board)), w1)"
    and run2: "pushBoard github_api ''t2'' two_board w1 = (Inr (length (tasks two_board)), w2)"
    and count: "length (gh_issues (remote w2)) = length (gh_issues (remote w1))"
    and titles: "map i_title (gh_issues (remote w2)) = map i_title (gh_issues (remote w1))"
    and same: "gh_labels (remote w2) = gh_labels (remote w1)"
    by (elim exE conjE)
  from run1 have w1: "snd ?P1 = w1" by simp
  from arg_cong [OF titles1, of length] have three: "length (gh_issues (remote w1)) = 3"
    by (simp add: w1)
  from run1 n have a: "fst ?P1 = Inr 2" by simp
  from run2 n have b: "fst (pushBoard github_api ''t2'' two_board (snd ?P1)) = Inr 2"
    by (simp add: w1)
  from run2 have w2: "snd (pushBoard github_api ''t2'' two_board w1) = w2"
    by simp
  from count three have c: "length (gh_issues (remote (snd (pushBoard github_api ''t2'' two_board (snd ?P1))))) = 3"
    by (simp only: w1 w2)
  from titles titles1 have d: "map i_title (gh_issues (remote (snd (pushBoard github_api ''t2'' two_board (snd ?P1)))))
       = [''Write docs'', ''Write docs'', ''Fix login bug'']"
    by (simp only: w1 w2)
  from same labels1 have e: "map l_name (gh_labels (remote (snd (pushBoard github_api ''t2'' two_board (snd ?P1)))))
       = [''Done'', ''backlog'', ''to do'', ''in progress'']"
    by (simp only: w1 w2)
  from a b titles1 labels1 c d e show ?thesis by blast
qed


section \<open>Pull: the ids of the tasks\<close>

text \<open>The properties of a parsed value that is not \<^verbatim>\<open>null\<close>.\<close>

definition js_prop :: "json \<Rightarrow> string \<Rightarrow> json option" where
  "js_prop v k = (case v of JObj kvs \<Rightarrow> map_of kvs k | _ \<Rightarrow> None)"

lemma js_get_prop: "v \<noteq> JNull \<Longrightarrow> js_get v k = Inr (js_prop v k)"
  by (cases v) (simp_all add: js_get_def js_prop_def)

lemma js_get_null: "js_get JNull k = Inl TypeError"
  by (simp add: js_get_def)

lemma issue_to_task_value:
  assumes "parseTaskBody (i_body i) = Inr v" and "v \<noteq> JNull"
  shows "issue_to_task n i =
           Inr \<lparr> task_id = n, title = i_title i,
                 description = or_default (js_prop v ''description'') (JStr []),
                 status = getKanbanStatus (i_labels i),
                 priority = or_default (js_prop v ''priority'') (JStr ''medium''),
                 assignee = (case i_assignees i of [] \<Rightarrow> IdStr [] | a # _ \<Rightarrow> IdStr a),
                 dueDate = or_default (js_prop v ''dueDate'') (JStr []),
                 comments = or_default (js_prop v ''comments'') (JArr []),
                 attachments = or_default (js_prop v ''attachments'') (JArr []),
                 createdAt = i_created_at i, updatedAt = i_updated_at i,
                 githubIssueNumber = Some (i_number i), githubUrl = Some (i_html_url i) \<rparr>"
  unfolding issue_to_task_def assms(1) by (simp only: js_get_prop [OF assms(2)] sum.case prod.case)

lemma issue_to_task_null:
  assumes "parseTaskBody (i_body i) = Inr JNull"
  shows "issue_to_task n i = Inl TypeError"
  unfolding issue_to_task_def assms by (simp only: js_get_null sum.case)

text \<open>The loop body throws only for a body that decodes to \<^verbatim>\<open>null\<close>.\<close>

lemma issue_to_task_returns:
  "(\<exists>t. issue_to_task n i = Inr t) \<longleftrightarrow> parseTaskBody (i_body i) \<noteq> Inr JNull"
proof -
  obtain v where v: "parseTaskBody (i_body i) = Inr v"
    using parseTaskBody_total by blast
  show ?thesis
  proof (cases "v = JNull")
    case True
    with v issue_to_task_null [of i n] show ?thesis by simp
  next
    case False
    with v issue_to_task_value [OF v False, of n] show ?thesis by simp
  qed
qed

lemma issue_to_task_id:
  assumes "issue_to_task n i = Inr t"
  shows "task_id t = n \<and> title t = i_title i"
proof -
  obtain v where v: "parseTaskBody (i_body i) = Inr v"
    using parseTaskBody_total by blast
  show ?thesis
  proof (cases "v = JNull")
    case True
    with v issue_to_task_null [of i n] assms show ?thesis by simp
  next
    case False
    from issue_to_task_value [OF v False, of n] assms
    have "t = \<lparr> task_id = n, title = i_title i,
                 description = or_default (js_prop v ''description'') (JStr []),
                 status = getKanbanStatus (i_labels i),
                 priority = or_default (js_prop v ''priority'') (JStr ''medium''),
                 assignee = (case i_assignees i of [] \<Rightarrow> IdStr [] | a # _ \<Rightarrow> IdStr a),
                 dueDate = or_default (js_prop v ''dueDate'') (JStr []),
                 comments = or_default (js_prop v ''comments'') (JArr []),
                 attachments = or_default (js_prop v ''attachments'') (JArr []),
                 createdAt = i_created_at i, updatedAt = i_updated_at i,
                 githubIssueNumber = Some (i_number i), githubUrl = Some (i_html_url i) \<rparr>"
      by simp
    then show ?thesis by simp
  qed
qed

lemma pull_loop_ids:
  assumes "pull_loop issues ts n = Inr (ts', n')"
  shows "n' = n + int (length issues)
       \<and> map task_id ts' = map task_id ts @ map (\<lambda>k. n + int k) [0..<length issues]
       \<and> map title ts' = map title ts @ map i_title issues"
  using assms
proof (induction issues arbitrary: ts n)
  case Nil
  then show ?case by simp
next
  case (Cons i issues)
  from Cons.prems obtain t where t: "issue_to_task n i = Inr t"
    and rest: "pull_loop issues (ts @ [t]) (n + 1) = Inr (ts', n')"
    by (auto split: sum.splits)
  from issue_to_task_id [OF t] have idt: "task_id t = n" and tt: "title t = i_title i" by simp_all
  from Cons.IH [OF rest] have
    a: "n' = n + 1 + int (length issues)"
    and b: "map task_id ts' = map task_id (ts @ [t]) @ map (\<lambda>k. n + 1 + int k) [0..<length issues]"
    and c: "map title ts' = map title (ts @ [t]) @ map i_title issues"
    by simp_all
  have shift: "map (\<lambda>k. n + int k) [0..<length (i # issues)]
               = n # map (\<lambda>k. n + 1 + int k) [0..<length issues]"
    by (simp add: upt_conv_Cons map_Suc_upt [symmetric] del: upt_Suc)
  from a b c idt tt shift show ?case by simp
qed

text \<open>
  When a pull returns, the ids of its tasks are 1, 2, ..., in the order of the issues, and
  the counter is one more than their number; the handler of the pull button then replaces
  the tasks of the board by them.
\<close>

lemma pull_try_loop:
  assumes "pull_try srv now rp w0 = (Inr r, w')"
  shows "\<exists>issues. pull_loop issues [] 1 = Inr r"
proof -
  obtain r1 w1 where g: "getRepoIssues srv (owner_login rp) (repo_name rp) ''all'' w0 = (r1, w1)"
    by (cases "getRepoIssues srv (owner_login rp) (repo_name rp) ''all'' w0")
  show ?thesis
  proof (cases r1)
    case (Inl e)
    with assms g show ?thesis by (simp add: pull_try_def bind_io_def)
  next
    case (Inr issues)
    with assms g have "(case pull_loop issues [] 1 of
             Inl e \<Rightarrow> (Inl e, w1)
           | Inr r \<Rightarrow> (Inr r, w1\<lparr>syncStatus := ''success'', lastSync := Some now\<rparr>)) = (Inr r, w')"
      by (simp add: pull_try_def bind_io_def)
    then have "pull_loop issues [] 1 = Inr r"
      by (cases "pull_loop issues [] 1") simp_all
    then show ?thesis ..
  qed
qed

lemma pullBoard_loop:
  assumes "pullBoard srv now w = (Inr r, w')"
  shows "\<exists>issues. pull_loop issues [] 1 = Inr r"
proof (cases "\<not> isConnected w \<or> selectedRepo w = None")
  case True
  with assms show ?thesis by (auto simp: pullBoard_def split: if_splits)
next
  case False
  then obtain rp where rp: "selectedRepo w = Some rp" and con: "isConnected w" by auto
  obtain r1 w1 where t: "pull_try srv now rp (w\<lparr>syncStatus := ''syncing''\<rparr>) = (r1, w1)"
    by (cases "pull_try srv now rp (w\<lparr>syncStatus := ''syncing''\<rparr>)")
  from assms rp con t have "r1 = Inr r"
    by (cases r1) (simp_all add: pullBoard_def)
  with t pull_try_loop show ?thesis by blast
qed

lemma pullBoard_ids:
  assumes "pullBoard srv now w = (Inr (ts, n), w')"
  shows "map task_id ts = map int [1..<Suc (length ts)] \<and> n = int (length ts) + 1"
proof -
  from pullBoard_loop [OF assms] obtain issues where loop: "pull_loop issues [] 1 = Inr (ts, n)"
    by blast
  from pull_loop_ids [OF loop] have
    n: "n = 1 + int (length issues)"
    and ids: "map task_id ts = map (\<lambda>k. 1 + int k) [0..<length issues]"
    and titles: "map title ts = map i_title issues"
    by simp_all
  from arg_cong [OF titles, of length] have len: "length ts = length issues" by simp
  have "map (\<lambda>k. 1 + int k) [0..<length issues] = map int [1..<Suc (length issues)]"
    by (simp add: map_Suc_upt [symmetric] del: upt_Suc)
  with n ids len show ?thesis by simp
qed

lemma pull_button_replaces:
  assumes "pullBoard srv now w = (Inr (ts, n), w')" and "kanbanBoard w = Some kb"
  shows "kanbanBoard (pull_button srv now w) = Some (kb\<lparr>tasks := ts, nextTaskId := n\<rparr>)"
proof -
  from orderlyD [OF orderly_pullBoard assms(1)] have "kanbanBoard w' = kanbanBoard w"
    by (simp add: orderly_step_def)
  with assms show ?thesis by (simp add: pull_button_def)
qed



text \<open>An issue whose metadata block is the JSON text \<^verbatim>\<open>null\<close>, alone in a repository.\<close>

definition null_issue :: issue where
  "null_issue =
     \<lparr> i_number = 1, i_title = ''Imported card'',
       i_body = Some (''<!-- pixelKanban metadata:'' @ [LF] @ ''null'' @ [LF] @ ''-->''),
       i_labels = [], i_assignees = [], i_created_at = ''2024-01-10T09:00:00Z'',
       i_updated_at = ''2024-01-10T09:00:00Z'',
       i_html_url = ''https://github.com/acme/board/issues/1'', i_pull_request = False \<rparr>"

definition null_world :: "github world" where
  "null_world = connected_world\<lparr>remote := \<lparr>gh_issues = [null_issue], gh_labels = []\<rparr>\<rparr>"

text \<open>
  Claim C3 says that a pull returns tasks numbered 1, 2, ... for every list of issues. When
  it returns it does (\<open>pullBoard_ids\<close>), but for this issue it does not return:
  \<^const>\<open>parseTaskBody\<close> returns \<^verbatim>\<open>null\<close>, reading its \<^verbatim>\<open>description\<close> throws a
  \<^verbatim>\<open>TypeError\<close>, the pull throws it, and the board keeps the tasks it had.
\<close>

theorem pullBoard_throws_on_null_metadata:
  "parseTaskBody (i_body null_issue) = Inr JNull
   \<and> issue_to_task 1 null_issue = Inl TypeError
   \<and> fst (pullBoard github_api ''now'' null_world) = Inl TypeError
   \<and> kanbanBoard (pull_button github_api ''now'' null_world) = Some two_board"
  by code_simp

section \<open>Printing and parsing strings\<close>

lemma char_of_nat_of_char: "char_of (of_char c :: nat) = c"
  by simp

lemma of_char_code: "(of_char c :: nat) = n \<Longrightarrow> c = char_of n"
  by auto

lemma char_codes:
  "char_of (8::nat) = CHR 0x08" "char_of (9::nat) = CHR 0x09" "char_of (10::nat) = LF"
  "char_of (12::nat) = CHR 0x0C" "char_of (13::nat) = CR"
  by code_simp+

lemma hex_val_hex_char: "d < 16 \<Longrightarrow> hex_val (hex_char d) = Some d"
  by (simp add: hex_val_def hex_char_def Let_def)

lemma unicode_escape_low:
  assumes "(of_char c :: nat) < 32"
  shows "unicode_escape (CHR ''0'') (CHR ''0'') (hex_char (of_char c div 16)) (hex_char (of_char c mod 16)) = Some c"
proof -
  let ?n = "of_char c :: nat"
  have z: "hex_val (CHR ''0'') = Some 0" by code_simp
  from assms have a: "hex_val (hex_char (?n div 16)) = Some (?n div 16)"
    by (intro hex_val_hex_char) simp
  have b: "hex_val (hex_char (?n mod 16)) = Some (?n mod 16)"
    by (intro hex_val_hex_char) simp
  show ?thesis
    by (simp add: unicode_escape_def z a b)
qed

lemma parse_chars_quote_char:
  "parse_chars (quote_char c @ rest) = map_option (apfst ((#) c)) (parse_chars rest)"
proof -
  let ?n = "of_char c :: nat"
  have u: "CHR ''u'' \<noteq> DQ" "CHR ''u'' \<noteq> BSL" by simp_all
  consider (dq) "c = DQ" | (bsl) "c = BSL" | (b) "?n = 8" | (f) "?n = 12" | (n) "?n = 10" | (r) "?n = 13"
    | (t) "?n = 9" | (low) "?n < 32" "?n \<notin> {8, 9, 10, 12, 13}" "c \<noteq> DQ" "c \<noteq> BSL"
    | (plain) "c \<noteq> DQ" "c \<noteq> BSL" "\<not> ?n < 32"
    by fastforce
  then show ?thesis
  proof cases
    case dq
    then show ?thesis by (simp add: quote_char_def unescape_def)
  next
    case bsl
    then show ?thesis by (simp add: quote_char_def unescape_def)
  next
    case b
    then have "c = CHR 0x08" by (auto dest!: of_char_code simp: char_codes)
    then show ?thesis by (simp add: quote_char_def unescape_def)
  next
    case f
    then have "c = CHR 0x0C" by (auto dest!: of_char_code simp: char_codes)
    then show ?thesis by (simp add: quote_char_def unescape_def)
  next
    case n
    then have "c = LF" by (auto dest!: of_char_code simp: char_codes)
    then show ?thesis by (simp add: quote_char_def unescape_def)
  next
    case r
    then have "c = CR" by (auto dest!: of_char_code simp: char_codes)
    then show ?thesis by (simp add: quote_char_def unescape_def)
  next
    case t
    then have "c = CHR 0x09" by (auto dest!: of_char_code simp: char_codes)
    then show ?thesis by (simp add: quote_char_def unescape_def)
  next
    case low
    then have q: "quote_char c = [BSL, CHR ''u'', CHR ''0'', CHR ''0'', hex_char (?n div 16), hex_char (?n mod 16)]"
      by (simp add: quote_char_def Let_def)
    show ?thesis
      unfolding q using unicode_escape_low [OF low(1)] by simp
  next
    case plain
    then show ?thesis by (simp add: quote_char_def Let_def)
  qed
qed

lemma parse_chars_quoted:
  "parse_chars (concat (map quote_char s) @ DQ # rest) = Some (s, rest)"
  by (induction s) (simp_all add: parse_chars_quote_char)


section \<open>Printing and parsing integers\<close>

lemma digit_char_nat: "0 \<le> d \<Longrightarrow> digit_char d = char_of (48 + nat d)"
proof -
  assume "0 \<le> d"
  then have "48 + d = int (48 + nat d)" by simp
  then have "char_of (48 + d) = char_of (int (48 + nat d))" by (rule arg_cong)
  then show ?thesis by (simp only: digit_char_def char_of_nat)
qed

lemma is_digit_digit_char: "0 \<le> d \<Longrightarrow> d < 10 \<Longrightarrow> is_digit (digit_char d)"
  by (simp add: is_digit_def digit_char_nat Let_def)

lemma digit_char_value: "0 \<le> d \<Longrightarrow> d < 10 \<Longrightarrow> (of_char (digit_char d) :: int) - 48 = d"
  by (simp add: digit_char_def of_char_of)

lemma digit_char_zero: "0 \<le> d \<Longrightarrow> d < 10 \<Longrightarrow> digit_char d = CHR ''0'' \<longleftrightarrow> d = 0"
proof -
  assume d: "0 \<le> d" "d < 10"
  have z: "(of_char (CHR ''0'') :: int) - 48 = 0" by simp
  show ?thesis
  proof
    assume "digit_char d = CHR ''0''"
    with digit_char_value [OF d] z show "d = 0" by simp
  next
    assume "d = 0"
    moreover have "digit_char 0 = CHR ''0''" by code_simp
    ultimately show "digit_char d = CHR ''0''" by simp
  qed
qed

lemma show_digits_digits: "0 \<le> n \<Longrightarrow> list_all is_digit (show_digits n)"
proof (induction n rule: show_digits.induct)
  case (1 n)
  show ?case
  proof (cases "n < 10")
    case True
    with 1(2) show ?thesis by (simp add: show_digits.simps [of n] is_digit_digit_char)
  next
    case False
    with 1 have "list_all is_digit (show_digits (n div 10))" by simp
    moreover have "is_digit (digit_char (n mod 10))" by (simp add: is_digit_digit_char)
    ultimately show ?thesis using False by (simp add: show_digits.simps [of n])
  qed
qed

lemma show_digits_nonempty: "show_digits n \<noteq> []"
  by (simp add: show_digits.simps [of n])

lemma show_digits_hd: "0 < n \<Longrightarrow> hd (show_digits n) \<noteq> CHR ''0''"
proof (induction n rule: show_digits.induct)
  case (1 n)
  show ?case
  proof (cases "n < 10")
    case True
    with 1(2) show ?thesis by (simp add: show_digits.simps [of n] digit_char_zero)
  next
    case False
    with 1 have "hd (show_digits (n div 10)) \<noteq> CHR ''0''" by simp
    with False show ?thesis by (simp add: show_digits.simps [of n] show_digits_nonempty)
  qed
qed

lemma digits_val_snoc: "digits_val (ds @ [c]) = 10 * digits_val ds + ((of_char c :: int) - 48)"
  by (simp add: digits_val_def)

lemma digits_val_show_digits: "0 \<le> n \<Longrightarrow> digits_val (show_digits n) = n"
proof (induction n rule: show_digits.induct)
  case (1 n)
  show ?case
  proof (cases "n < 10")
    case True
    with 1(2) show ?thesis
      using digits_val_snoc [of "[]" "digit_char n"]
      by (simp add: show_digits.simps [of n] digit_char_value digits_val_def)
  next
    case False
    with 1 have "digits_val (show_digits (n div 10)) = n div 10" by simp
    with False show ?thesis
      by (simp add: show_digits.simps [of n] digits_val_snoc digit_char_value)
  qed
qed

text \<open>A text that does not go on with a digit, and one that does not go on like a number.\<close>

definition digits_end :: "string \<Rightarrow> bool" where
  "digits_end rest \<longleftrightarrow> (case rest of [] \<Rightarrow> True | c # _ \<Rightarrow> \<not> is_digit c)"

definition number_end :: "string \<Rightarrow> bool" where
  "number_end rest \<longleftrightarrow>
     (case rest of [] \<Rightarrow> True
      | c # _ \<Rightarrow> \<not> is_digit c \<and> c \<noteq> CHR ''.'' \<and> c \<noteq> CHR ''e'' \<and> c \<noteq> CHR ''E'')"

lemma number_end_digits_end: "number_end rest \<Longrightarrow> digits_end rest"
  by (cases rest) (simp_all add: number_end_def digits_end_def)

lemma takeWhile_digits:
  assumes "list_all is_digit ds" and "digits_end rest"
  shows "takeWhile is_digit (ds @ rest) = ds" and "dropWhile is_digit (ds @ rest) = rest"
proof -
  from assms(1) have all: "\<forall>x\<in>set ds. is_digit x" by (simp add: list_all_iff)
  from assms(2) have r: "takeWhile is_digit rest = []" "dropWhile is_digit rest = rest"
    by (cases rest; simp add: digits_end_def)+
  from all r show "takeWhile is_digit (ds @ rest) = ds" by (simp add: takeWhile_append2)
  from all r show "dropWhile is_digit (ds @ rest) = rest" by (simp add: dropWhile_append2)
qed

lemma parse_int_part_show_digits:
  assumes "0 \<le> n" and "digits_end rest"
  shows "parse_int_part (show_digits n @ rest) = Some (show_digits n, rest)"
proof (cases "n = 0")
  case True
  have "show_digits 0 = ''0''" by code_simp
  with True show ?thesis by (simp add: parse_int_part_def)
next
  case False
  with assms(1) have pos: "0 < n" by simp
  obtain c cs where ds: "show_digits n = c # cs"
    using show_digits_nonempty [of n] by (cases "show_digits n") auto
  from show_digits_hd [OF pos] ds have c0: "c \<noteq> CHR ''0''" by simp
  from show_digits_digits [OF assms(1)] ds have dc: "is_digit c" by simp
  have "parse_int_part (show_digits n @ rest)
          = Some (takeWhile is_digit (show_digits n @ rest), dropWhile is_digit (show_digits n @ rest))"
    using c0 dc by (simp add: parse_int_part_def ds)
  then show ?thesis
    by (simp only: takeWhile_digits [OF show_digits_digits [OF assms(1)] assms(2)])
qed

lemma parse_frac_part_none: "number_end rest \<Longrightarrow> parse_frac_part rest = Some ([], rest)"
  by (cases rest) (simp_all add: parse_frac_part_def number_end_def)

lemma parse_exp_part_none: "number_end rest \<Longrightarrow> parse_exp_part rest = Some (0, rest)"
  by (cases rest) (simp_all add: parse_exp_part_def number_end_def)

lemma parse_unsigned_show_digits:
  assumes "0 \<le> n" and "number_end rest"
  shows "parse_unsigned neg (show_digits n @ rest) = Some (JNum (if neg then - n else n), rest)"
  by (simp add: parse_unsigned_def parse_int_part_show_digits [OF assms(1) number_end_digits_end [OF assms(2)]]
        parse_frac_part_none [OF assms(2)] parse_exp_part_none [OF assms(2)]
        digits_val_show_digits [OF assms(1)])

lemma show_digits_no_minus: "0 \<le> n \<Longrightarrow> hd (show_digits n) \<noteq> CHR ''-''"
proof -
  assume "0 \<le> n"
  from show_digits_digits [OF this] show_digits_nonempty [of n]
  have "is_digit (hd (show_digits n))" by (cases "show_digits n") auto
  moreover have "\<not> is_digit (CHR ''-'')" by code_simp
  ultimately show ?thesis by auto
qed

lemma parse_number_show_int:
  assumes "number_end rest"
  shows "parse_number (show_int i @ rest) = Some (JNum i, rest)"
proof (cases "i < 0")
  case True
  then have "0 \<le> - i" by simp
  from parse_unsigned_show_digits [OF this assms, of True] True show ?thesis
    by (simp add: parse_number_def show_int_def)
next
  case False
  then have nn: "0 \<le> i" by simp
  obtain c cs where ds: "show_digits i = c # cs"
    using show_digits_nonempty [of i] by (cases "show_digits i") auto
  from show_digits_no_minus [OF nn] ds have "c \<noteq> CHR ''-''" by simp
  with parse_unsigned_show_digits [OF nn assms, of False] False ds show ?thesis
    by (simp add: parse_number_def show_int_def)
qed

section \<open>Printing and parsing decimals\<close>

lemma show_digits_length: "0 \<le> n \<Longrightarrow> n < 10 ^ k \<Longrightarrow> 0 < k \<Longrightarrow> length (show_digits n) \<le> k"
proof (induction n arbitrary: k rule: show_digits.induct)
  case (1 n)
  show ?case
  proof (cases "n < 10")
    case True
    with 1(4) show ?thesis by (simp add: show_digits.simps [of n])
  next
    case False
    from 1(4) obtain j where k: "k = Suc j" by (cases k) auto
    from False 1(3) k have j: "0 < j" by (cases j) auto
    from 1(3) k have "n div 10 < 10 ^ j" by simp
    with 1(1) [OF False _ this j] 1(2) have "length (show_digits (n div 10)) \<le> j" by simp
    with False k show ?thesis by (simp add: show_digits.simps [of n])
  qed
qed

lemma digits_val_append: "digits_val (xs @ ys) = digits_val xs * 10 ^ length ys + digits_val ys"
proof (induction ys rule: rev_induct)
  case Nil
  then show ?case by (simp add: digits_val_def)
next
  case (snoc y ys)
  have "digits_val (xs @ ys @ [y]) = 10 * digits_val (xs @ ys) + ((of_char y :: int) - 48)"
    using digits_val_snoc [of "xs @ ys" y] by simp
  with snoc show ?case by (simp add: digits_val_snoc algebra_simps)
qed

lemma digits_val_zeros: "digits_val (replicate n (CHR ''0'') @ ds) = digits_val ds"
proof -
  have "foldl (\<lambda>a c. 10 * a + ((of_char c :: int) - 48)) 0 (replicate n (CHR ''0'')) = 0"
    by (induction n) simp_all
  then show ?thesis by (simp add: digits_val_def)
qed

lemma is_digit_zero: "is_digit (CHR ''0'')"
  by code_simp

lemma not_digit_dot: "\<not> is_digit (CHR ''.'')"
  by code_simp

lemma parse_unsigned_decimal:
  assumes a: "0 \<le> a" and k: "0 < k" and last: "a mod 10 \<noteq> 0" and rest: "number_end rest"
  shows "parse_unsigned neg
           (show_digits (a div 10 ^ k) @ CHR ''.''
            # replicate (k - length (show_digits (a mod 10 ^ k))) (CHR ''0'') @ show_digits (a mod 10 ^ k) @ rest)
         = Some (JDec (if neg then - a else a) k, rest)"
proof -
  let ?q = "a div 10 ^ k" and ?r = "a mod 10 ^ k"
  let ?fs = "replicate (k - length (show_digits ?r)) (CHR ''0'') @ show_digits ?r"
  have q0: "0 \<le> ?q" using a by (simp add: pos_imp_zdiv_nonneg_iff)
  have r0: "0 \<le> ?r" and rk: "?r < 10 ^ k" by simp_all
  have len: "length ?fs = k"
    using show_digits_length [OF r0 rk k] by simp
  have fs_digits: "list_all is_digit ?fs"
    using show_digits_digits [OF r0] is_digit_zero by (auto simp: list_all_iff)
  have fs_ne: "?fs \<noteq> []" using len k by auto
  have after_int: "digits_end (CHR ''.'' # ?fs @ rest)"
    by (simp add: digits_end_def not_digit_dot)
  have ip: "parse_int_part (show_digits ?q @ CHR ''.'' # ?fs @ rest)
              = Some (show_digits ?q, CHR ''.'' # ?fs @ rest)"
    using parse_int_part_show_digits [OF q0 after_int] .
  have "parse_frac_part (CHR ''.'' # ?fs @ rest)
          = (if takeWhile is_digit (?fs @ rest) = [] then None
             else Some (takeWhile is_digit (?fs @ rest), dropWhile is_digit (?fs @ rest)))"
    by (simp only: parse_frac_part_def list.case simp_thms if_True)
  then have fp: "parse_frac_part (CHR ''.'' # ?fs @ rest) = Some (?fs, rest)"
    using fs_ne by (simp only: takeWhile_digits [OF fs_digits number_end_digits_end [OF rest]] if_False)
  have val: "digits_val (show_digits ?q @ ?fs) = a"
  proof -
    have "digits_val (show_digits ?q @ ?fs) = digits_val (show_digits ?q) * 10 ^ length ?fs + digits_val ?fs"
      by (rule digits_val_append)
    also have "\<dots> = ?q * 10 ^ k + ?r"
      by (simp only: len digits_val_zeros digits_val_show_digits [OF q0] digits_val_show_digits [OF r0])
    also have "\<dots> = a" by (rule div_mult_mod_eq)
    finally show ?thesis .
  qed
  obtain j where j: "k = Suc j" using k by (cases k) auto
  have "(if neg then - a else a) mod 10 \<noteq> 0"
    using last by presburger
  then have norm: "norm_dec (if neg then - a else a) k = JDec (if neg then - a else a) k"
    unfolding j by (simp only: norm_dec.simps if_False)
  have sc: "\<not> 0 \<le> 0 - int k" and places: "nat (- (0 - int k)) = k" using k by simp_all
  have "parse_unsigned neg (show_digits ?q @ CHR ''.'' # ?fs @ rest)
          = Some (norm_dec (if neg then - a else a) k, rest)"
    unfolding parse_unsigned_def ip fp parse_exp_part_none [OF rest] option.case prod.case Let_def val len
    by (simp only: sc places if_False)
  then show ?thesis
    unfolding append_assoc by (simp only: norm)
qed

lemma parse_number_show_dec:
  assumes k: "0 < k" and last: "m mod 10 \<noteq> 0" and rest: "number_end rest"
  shows "parse_number (show_dec m k @ rest) = Some (JDec m k, rest)"
proof (cases "m < 0")
  case True
  then have a: "0 \<le> \<bar>m\<bar>" and abs: "\<bar>m\<bar> = - m" by simp_all
  from last have la: "\<bar>m\<bar> mod 10 \<noteq> 0" by presburger
  from parse_unsigned_decimal [OF a k la rest, of True] True show ?thesis
    by (simp add: parse_number_def show_dec_def Let_def abs)
next
  case False
  then have a: "0 \<le> \<bar>m\<bar>" and abs: "\<bar>m\<bar> = m" by simp_all
  from last have la: "\<bar>m\<bar> mod 10 \<noteq> 0" by (simp add: abs)
  have q0: "0 \<le> m div 10 ^ k" using False by (simp add: pos_imp_zdiv_nonneg_iff)
  obtain c cs where ds: "show_digits (m div 10 ^ k) = c # cs"
    using show_digits_nonempty [of "m div 10 ^ k"] by (cases "show_digits (m div 10 ^ k)") auto
  from show_digits_no_minus [OF q0] ds have "c \<noteq> CHR ''-''" by simp
  with parse_unsigned_decimal [OF a k la rest, of False] False ds show ?thesis
    by (simp add: parse_number_def show_dec_def Let_def abs)
qed

section \<open>Printing and parsing values\<close>

text \<open>
  The values that \<^const>\<open>JSON_stringify\<close> prints so that \<^const>\<open>JSON_parse\<close> reads them back:
  decimals in normal form and objects without a repeated key.
\<close>

fun plain :: "json \<Rightarrow> bool" where
  "plain JNull = True"
| "plain (JBool b) = True"
| "plain (JNum n) = True"
| "plain (JDec m k) = (0 < k \<and> m mod 10 \<noteq> 0)"
| "plain (JStr s) = True"
| "plain (JArr xs) = (\<forall>x\<in>set xs. plain x)"
| "plain (JObj kvs) = (distinct (map fst kvs) \<and> (\<forall>kv\<in>set kvs. plain (snd kv)))"

definition value_start :: "char \<Rightarrow> bool" where
  "value_start c \<longleftrightarrow> \<not> is_json_ws c \<and> c \<noteq> CHR '']'' \<and> c \<noteq> CHR ''}''"

lemma skip_ws_start: "\<not> is_json_ws c \<Longrightarrow> skip_ws (c # cs) = c # cs"
  by (simp add: skip_ws_def)

lemma value_start_digit: "is_digit c \<Longrightarrow> value_start c"
  by (auto simp: value_start_def is_digit_def is_json_ws_def Let_def)

lemma value_start_chars:
  "value_start (CHR ''-'')" "value_start DQ" "value_start (CHR ''['')" "value_start (CHR ''{'')"
  "value_start (CHR ''n'')" "value_start (CHR ''t'')" "value_start (CHR ''f'')"
  by (simp_all add: value_start_def is_json_ws_def)

lemma separators:
  "\<not> is_json_ws (CHR '','')" "\<not> is_json_ws (CHR '']'')" "\<not> is_json_ws (CHR ''}'')" "\<not> is_json_ws (CHR '':'')"
  "number_end (CHR '','' # r)" "number_end (CHR '']'' # r)" "number_end (CHR ''}'' # r)" "number_end []"
  by (simp_all add: is_json_ws_def number_end_def is_digit_def)

lemma show_digits_start: "0 \<le> n \<Longrightarrow> \<exists>c cs. show_digits n = c # cs \<and> is_digit c"
  using show_digits_digits [of n] show_digits_nonempty [of n] by (cases "show_digits n") auto

lemma stringify_start: "\<exists>c cs. JSON_stringify j = c # cs \<and> value_start c"
proof (cases j)
  case (JNum n)
  show ?thesis
  proof (cases "n < 0")
    case True
    with JNum show ?thesis by (simp add: show_int_def value_start_chars)
  next
    case False
    then have "0 \<le> n" by simp
    from show_digits_start [OF this] False JNum show ?thesis
      by (auto simp: show_int_def value_start_digit)
  qed
next
  case (JDec m k)
  show ?thesis
  proof (cases "m < 0")
    case True
    with JDec show ?thesis by (simp add: show_dec_def Let_def value_start_chars)
  next
    case False
    then have "0 \<le> \<bar>m\<bar> div 10 ^ k" by (simp add: pos_imp_zdiv_nonneg_iff)
    from show_digits_start [OF this] False JDec show ?thesis
      by (auto simp: show_dec_def Let_def value_start_digit)
  qed
qed (simp_all add: value_start_chars quote_string_def)

lemma join_with_Cons: "join_with sep (x # xs) = (if xs = [] then x else x @ sep @ join_with sep xs)"
  by (cases xs) simp_all


text \<open>The elements of an array, each of them read back by \<^const>\<open>parse_value\<close>.\<close>

lemma parse_elems_join:
  assumes "xs \<noteq> []"
    and "\<forall>x\<in>set xs. \<forall>rest. number_end rest \<longrightarrow> parse_value (JSON_stringify x @ rest) = Some (x, rest)"
  shows "parse_elems (join_with '','' (map JSON_stringify xs) @ CHR '']'' # rest) = Some (xs, rest)"
  using assms
proof (induction xs rule: list_nonempty_induct)
  case (single x)
  let ?cs = "JSON_stringify x @ CHR '']'' # rest"
  from single have pv: "parse_value ?cs = Some (x, CHR '']'' # rest)"
    by (simp add: separators)
  from parse_value_length [OF pv] have lt: "length (CHR '']'' # rest) < length ?cs" .
  show ?case
    using lt by (simp add: parse_elems.simps [of ?cs] pv skip_ws_start separators)
next
  case (cons x xs)
  let ?tl = "join_with '','' (map JSON_stringify xs) @ CHR '']'' # rest"
  let ?cs = "JSON_stringify x @ CHR '','' # ?tl"
  from cons.prems have pv: "parse_value ?cs = Some (x, CHR '','' # ?tl)"
    by (simp add: separators)
  from parse_value_length [OF pv] have lt: "length (CHR '','' # ?tl) < length ?cs" .
  from cons.IH cons.prems have ih: "parse_elems ?tl = Some (xs, rest)" by simp
  have "parse_elems ?cs = Some (x # xs, rest)"
    using lt by (simp add: parse_elems.simps [of ?cs] pv skip_ws_start separators ih)
  with cons.hyps show ?case by (simp add: join_with_Cons)
qed

text \<open>The members of an object.\<close>

definition show_member :: "string \<times> json \<Rightarrow> string" where
  "show_member kv = quote_string (fst kv) @ '':'' @ JSON_stringify (snd kv)"

lemma show_member_pair:
  "show_member (k, v) = DQ # concat (map quote_char k) @ DQ # CHR '':'' # JSON_stringify v"
  by (simp add: show_member_def quote_string_def)

lemma parse_membs_join:
  assumes "kvs \<noteq> []"
    and "\<forall>kv\<in>set kvs. \<forall>rest. number_end rest \<longrightarrow> parse_value (JSON_stringify (snd kv) @ rest) = Some (snd kv, rest)"
  shows "parse_membs (join_with '','' (map show_member kvs) @ CHR ''}'' # rest) = Some (kvs, rest)"
  using assms
proof (induction kvs rule: list_nonempty_induct)
  case (single kv)
  obtain k v where kv: "kv = (k, v)" by (cases kv)
  let ?r2 = "JSON_stringify v @ CHR ''}'' # rest"
  let ?cs = "DQ # concat (map quote_char k) @ DQ # CHR '':'' # ?r2"
  from single kv have pv: "parse_value ?r2 = Some (v, CHR ''}'' # rest)"
    by (simp add: separators)
  from parse_value_length [OF pv] have lt: "length (CHR ''}'' # rest) < length ?r2" .
  have "parse_membs ?cs = Some ([(k, v)], rest)"
    using lt
    by (simp add: parse_membs.simps [of ?cs] skip_ws_start value_start_chars [unfolded value_start_def]
          parse_chars_quoted pv separators)
  then show ?case by (simp add: kv show_member_pair)
next
  case (cons kv kvs)
  obtain k v where kv: "kv = (k, v)" by (cases kv)
  let ?tl = "join_with '','' (map show_member kvs) @ CHR ''}'' # rest"
  let ?r2 = "JSON_stringify v @ CHR '','' # ?tl"
  let ?cs = "DQ # concat (map quote_char k) @ DQ # CHR '':'' # ?r2"
  from cons.prems kv have pv: "parse_value ?r2 = Some (v, CHR '','' # ?tl)"
    by (simp add: separators)
  from parse_value_length [OF pv] have lt: "length (CHR '','' # ?tl) < length ?r2" .
  from cons.IH cons.prems have ih: "parse_membs ?tl = Some (kvs, rest)" by simp
  have "parse_membs ?cs = Some ((k, v) # kvs, rest)"
    using lt
    by (simp add: parse_membs.simps [of ?cs] skip_ws_start value_start_chars [unfolded value_start_def]
          parse_chars_quoted pv separators ih)
  with cons.hyps show ?case by (simp add: kv show_member_pair join_with_Cons)
qed

text \<open>Without a repeated key the properties are those of the text, in its order.\<close>

lemma obj_set_new: "k \<notin> fst ` set obj \<Longrightarrow> obj_set obj k v = obj @ [(k, v)]"
  by (induction obj) auto

lemma foldl_obj_set:
  "distinct (map fst (obj @ kvs)) \<Longrightarrow>
     foldl (\<lambda>obj kv. obj_set obj (fst kv) (snd kv)) obj kvs = obj @ kvs"
proof (induction kvs arbitrary: obj)
  case Nil
  then show ?case by simp
next
  case (Cons kv kvs)
  from Cons.prems have new: "fst kv \<notin> fst ` set obj" by auto
  from Cons.prems have "distinct (map fst ((obj @ [kv]) @ kvs))" by simp
  from Cons.IH [OF this] show ?case by (simp add: obj_set_new [OF new])
qed

lemma build_object_distinct: "distinct (map fst kvs) \<Longrightarrow> build_object kvs = JObj kvs"
  using foldl_obj_set [of "[]" kvs] by (simp add: build_object_def)


lemma join_with_start:
  assumes "xs \<noteq> []" and "\<forall>x\<in>set xs. \<exists>c cs. f x = c # cs \<and> value_start c"
  shows "\<exists>c cs. join_with sep (map f xs) @ rest = c # cs \<and> value_start c"
proof -
  from assms(1) obtain x ys where xs: "xs = x # ys" by (cases xs) auto
  with assms(2) obtain c cs where "f x = c # cs" and "value_start c" by auto
  then show ?thesis by (cases ys) (simp_all add: xs)
qed

lemma show_member_start: "\<exists>c cs. show_member kv = c # cs \<and> value_start c"
  by (cases kv) (simp add: show_member_pair value_start_chars)

lemma not_keyword_digit: "is_digit c \<Longrightarrow> c \<noteq> CHR ''['' \<and> c \<noteq> CHR ''{'' \<and> c \<noteq> DQ \<and> c \<noteq> CHR ''t'' \<and> c \<noteq> CHR ''f'' \<and> c \<noteq> CHR ''n''"
  by (auto simp: is_digit_def)

lemma parse_value_number:
  assumes "s = c # cs" and "c = CHR ''-'' \<or> is_digit c"
  shows "parse_value (s @ rest) = parse_number (s @ rest)"
proof -
  from assms(2) have v: "value_start c"
    using value_start_chars(1) value_start_digit by blast
  from assms(2) have ne: "c \<noteq> CHR ''['' \<and> c \<noteq> CHR ''{'' \<and> c \<noteq> DQ \<and> c \<noteq> CHR ''t'' \<and> c \<noteq> CHR ''f'' \<and> c \<noteq> CHR ''n''"
    using not_keyword_digit by auto
  from v have ws: "skip_ws (c # cs @ rest) = c # cs @ rest"
    by (simp add: skip_ws_start value_start_def)
  show ?thesis
    using ne by (subst parse_value.simps) (auto simp: assms(1) ws)
qed

lemma show_int_start: "\<exists>c cs. show_int i = c # cs \<and> (c = CHR ''-'' \<or> is_digit c)"
proof (cases "i < 0")
  case True
  then show ?thesis by (simp add: show_int_def)
next
  case False
  then have "0 \<le> i" by simp
  from show_digits_start [OF this] False show ?thesis by (auto simp: show_int_def)
qed

lemma show_dec_start: "\<exists>c cs. show_dec m k = c # cs \<and> (c = CHR ''-'' \<or> is_digit c)"
proof (cases "m < 0")
  case True
  then show ?thesis by (simp add: show_dec_def Let_def)
next
  case False
  then have "0 \<le> \<bar>m\<bar> div 10 ^ k" by (simp add: pos_imp_zdiv_nonneg_iff)
  from show_digits_start [OF this] False show ?thesis by (auto simp: show_dec_def Let_def)
qed

text \<open>A printed value, whatever follows it, is read back as it was.\<close>

lemma parse_value_stringify:
  "plain j \<Longrightarrow> number_end rest \<Longrightarrow> parse_value (JSON_stringify j @ rest) = Some (j, rest)"
proof (induction j arbitrary: rest)
  case JNull
  show ?case
    by (subst parse_value.simps) (simp add: skip_ws_start value_start_chars [unfolded value_start_def])
next
  case (JBool b)
  show ?case
  proof (cases b)
    case True
    then show ?thesis
      by (subst parse_value.simps) (simp add: skip_ws_start value_start_chars [unfolded value_start_def])
  next
    case False
    then show ?thesis
      by (subst parse_value.simps) (simp add: skip_ws_start value_start_chars [unfolded value_start_def])
  qed
next
  case (JNum n)
  from show_int_start [of n] obtain c cs where "show_int n = c # cs" and "c = CHR ''-'' \<or> is_digit c"
    by blast
  from parse_value_number [OF this] parse_number_show_int [OF JNum.prems(2)] show ?case by simp
next
  case (JDec m k)
  then have k: "0 < k" and m: "m mod 10 \<noteq> 0" by simp_all
  from show_dec_start [of m k] obtain c cs where "show_dec m k = c # cs" and "c = CHR ''-'' \<or> is_digit c"
    by blast
  from parse_value_number [OF this] parse_number_show_dec [OF k m JDec.prems(2)] show ?case by simp
next
  case (JStr s)
  show ?case
    by (subst parse_value.simps) (simp add: quote_string_def skip_ws_start
          value_start_chars [unfolded value_start_def] parse_chars_quoted)
next
  case (JArr xs)
  let ?body = "join_with '','' (map JSON_stringify xs) @ CHR '']'' # rest"
  have ws: "skip_ws (CHR ''['' # ?body) = CHR ''['' # ?body"
    by (simp add: skip_ws_start value_start_chars [unfolded value_start_def])
  show ?case
  proof (cases "xs = []")
    case True
    then show ?thesis
      by (subst parse_value.simps) (simp add: skip_ws_start separators
            value_start_chars [unfolded value_start_def])
  next
    case False
    from JArr have each: "\<forall>x\<in>set xs. \<forall>rest. number_end rest \<longrightarrow> parse_value (JSON_stringify x @ rest) = Some (x, rest)"
      by simp
    from join_with_start [OF False, of JSON_stringify "'',''" "CHR '']'' # rest"] stringify_start
    obtain c cs where start: "?body = c # cs" and vs: "value_start c" by blast
    from vs have inner: "skip_ws ?body = c # cs" and nb: "c \<noteq> CHR '']''"
      by (simp_all add: start skip_ws_start value_start_def)
    have "parse_value (CHR ''['' # ?body) = map_option (apfst JArr) (parse_elems ?body)"
      using nb by (subst parse_value.simps) (simp add: ws inner)
    also have "\<dots> = Some (JArr xs, rest)"
      by (simp add: parse_elems_join [OF False each])
    finally show ?thesis by simp
  qed
next
  case (JObj kvs)
  let ?body = "join_with '','' (map show_member kvs) @ CHR ''}'' # rest"
  have sm: "map (\<lambda>kv. quote_string (fst kv) @ '':'' @ JSON_stringify (snd kv)) kvs = map show_member kvs"
    by (simp add: show_member_def)
  have pr: "JSON_stringify (JObj kvs) @ rest = CHR ''{'' # ?body"
    unfolding JSON_stringify.simps sm by simp
  have ws: "skip_ws (CHR ''{'' # ?body) = CHR ''{'' # ?body"
    by (simp add: skip_ws_start value_start_chars [unfolded value_start_def])
  from JObj.prems have dist: "distinct (map fst kvs)" by simp
  show ?case
  proof (cases "kvs = []")
    case True
    then show ?thesis
      by (subst parse_value.simps) (simp add: skip_ws_start separators
            value_start_chars [unfolded value_start_def])
  next
    case False
    have each: "\<forall>kv\<in>set kvs. \<forall>rest. number_end rest \<longrightarrow> parse_value (JSON_stringify (snd kv) @ rest) = Some (snd kv, rest)"
    proof (intro ballI allI impI)
      fix kv r assume kv: "kv \<in> set kvs" and r: "number_end r"
      obtain k v where p: "kv = (k, v)" by (cases kv)
      with kv JObj.prems have "plain v" by auto
      with JObj.IH [of kv v r] kv p r show "parse_value (JSON_stringify (snd kv) @ r) = Some (snd kv, r)"
        by simp
    qed
    from join_with_start [OF False, of show_member "'',''" "CHR ''}'' # rest"] show_member_start
    obtain c cs where start: "?body = c # cs" and vs: "value_start c" by blast
    from vs have inner: "skip_ws ?body = c # cs" and nb: "c \<noteq> CHR ''}''"
      by (simp_all add: start skip_ws_start value_start_def)
    have "parse_value (CHR ''{'' # ?body) = map_option (apfst build_object) (parse_membs ?body)"
      using nb by (subst parse_value.simps) (simp add: ws inner)
    also have "\<dots> = Some (JObj kvs, rest)"
      by (simp add: parse_membs_join [OF False each] build_object_distinct [OF dist])
    finally show ?thesis by (simp only: pr)
  qed
qed

theorem JSON_parse_stringify: "plain j \<Longrightarrow> JSON_parse (JSON_stringify j) = Inr j"
  using parse_value_stringify [of j "[]"] by (simp add: JSON_parse_def separators skip_ws_def)

section \<open>The metadata block of a formatted body\<close>

text \<open>A printed value has no line feed in it, so the block ends where its closing marker stands.\<close>

lemma not_digit_LF: "\<not> is_digit LF"
  by code_simp

lemma show_digits_no_LF: "0 \<le> n \<Longrightarrow> LF \<notin> set (show_digits n)"
  using show_digits_digits [of n] not_digit_LF by (auto simp: list_all_iff)

lemma show_int_no_LF: "LF \<notin> set (show_int i)"
  by (simp add: show_int_def show_digits_no_LF)

lemma show_dec_no_LF: "LF \<notin> set (show_dec m k)"
proof -
  have "0 \<le> \<bar>m\<bar> div 10 ^ k" by (simp add: pos_imp_zdiv_nonneg_iff)
  moreover have "0 \<le> \<bar>m\<bar> mod 10 ^ k" by simp
  ultimately show ?thesis
    by (auto simp: show_dec_def Let_def show_digits_no_LF)
qed

lemma hex_char_no_LF: "d < 16 \<Longrightarrow> hex_char d \<noteq> LF"
proof -
  assume "d < 16"
  then have "(of_char (hex_char d) :: nat) \<noteq> of_char LF"
    by (simp add: hex_char_def)
  then show ?thesis by auto
qed

lemma quote_char_no_LF: "LF \<notin> set (quote_char c)"
proof -
  let ?n = "of_char c :: nat"
  have lf: "(of_char LF :: nat) = 10" by simp
  have a: "hex_char (?n div 16) \<noteq> LF" if "?n < 32"
    using that by (intro hex_char_no_LF) simp
  have b: "hex_char (?n mod 16) \<noteq> LF"
    by (intro hex_char_no_LF) simp
  have c: "c \<noteq> LF" if "?n \<noteq> 10" using that lf by auto
  show ?thesis
    using a b c by (auto simp: quote_char_def Let_def)
qed

lemma quote_string_no_LF: "LF \<notin> set (quote_string s)"
  using quote_char_no_LF by (auto simp: quote_string_def)

lemma join_with_no_LF:
  "LF \<notin> set sep \<Longrightarrow> \<forall>x\<in>set xs. LF \<notin> set x \<Longrightarrow> LF \<notin> set (join_with sep xs)"
  by (induction sep xs rule: join_with.induct) auto

lemma stringify_no_LF: "LF \<notin> set (JSON_stringify j)"
proof (induction j)
  case (JArr xs)
  then have "\<forall>s\<in>set (map JSON_stringify xs). LF \<notin> set s" by auto
  then have "LF \<notin> set (join_with '','' (map JSON_stringify xs))"
    by (intro join_with_no_LF) simp_all
  then show ?case by simp
next
  case (JObj kvs)
  let ?f = "\<lambda>kv. quote_string (fst kv) @ '':'' @ JSON_stringify (snd kv)"
  have "LF \<notin> set (?f kv)" if "kv \<in> set kvs" for kv
  proof -
    obtain k v where p: "kv = (k, v)" by (cases kv)
    with that JObj [of kv v] have "LF \<notin> set (JSON_stringify v)" by simp
    with p show ?thesis by (simp add: quote_string_no_LF)
  qed
  then have "\<forall>s\<in>set (map ?f kvs). LF \<notin> set s" by auto
  then have "LF \<notin> set (join_with '','' (map ?f kvs))"
    by (intro join_with_no_LF) simp_all
  then show ?case by simp
qed (simp_all add: show_int_no_LF show_dec_no_LF quote_string_no_LF)

text \<open>
  A marker that ends with a line feed and has no other, written behind a text and two line
  feeds: it is found there when the text does not hold the marker without its line feed.
\<close>

lemma find_sub_marker:
  assumes lf: "LF \<notin> set m" and ne: "m \<noteq> []" and absent: "find_sub m t = None"
  shows "find_sub (m @ [LF]) (t @ [LF, LF] @ (m @ [LF]) @ v) = Some (t @ [LF, LF], v)"
proof -
  have "\<not> prefix (m @ [LF]) (s @ (m @ [LF]) @ v)" if suf: "suffix s (t @ [LF, LF])" and s: "s \<noteq> []" for s
  proof
    assume pre: "prefix (m @ [LF]) (s @ (m @ [LF]) @ v)"
    then have pm: "prefix m (s @ (m @ [LF]) @ v)" by (rule append_prefixD)
    from ne obtain c cs where m: "m = c # cs" by (cases m) auto
    with lf have c: "c \<noteq> LF" by auto
    from pm m s have hd: "hd s = c" by (cases s) auto
    from suf consider (short) "suffix s [LF, LF]" | (long) b where "s = b @ [LF, LF]" "suffix b t"
      by (auto simp: suffix_append)
    then obtain a b where b: "s = b @ [LF, LF]" and tb: "t = a @ b"
    proof cases
      case short
      then obtain z where "[LF, LF] = z @ s" by (auto simp: suffix_def)
      with s have "hd s = LF" by (cases z; cases "tl z") auto
      with hd c show ?thesis by simp
    next
      case long
      then show ?thesis using that by (auto simp: suffix_def)
    qed
    from pm b have "prefix m (b @ (LF # LF # (m @ [LF]) @ v))" by simp
    then have "prefix m b \<or> (\<exists>us. m = b @ us \<and> prefix us (LF # LF # (m @ [LF]) @ v))"
      by (simp only: prefix_append)
    then show False
    proof
      assume "prefix m b"
      then obtain d where "b = m @ d" by (auto simp: prefix_def)
      with tb have "t = a @ m @ d" by simp
      with absent show False by (simp only: find_sub_None_iff) blast
    next
      assume "\<exists>us. m = b @ us \<and> prefix us (LF # LF # (m @ [LF]) @ v)"
      then obtain us where mb: "m = b @ us" and pu: "prefix us (LF # LF # (m @ [LF]) @ v)" by blast
      show False
      proof (cases us)
        case Nil
        with mb tb have "t = a @ m @ []" by simp
        with absent show False by (simp only: find_sub_None_iff) blast
      next
        case (Cons x xs)
        with pu have "x = LF" by simp
        with Cons mb have "LF \<in> set m" by simp
        with lf show False by simp
      qed
    qed
  qed
  then have "\<forall>s. suffix s (t @ [LF, LF]) \<and> s \<noteq> [] \<longrightarrow> \<not> prefix (m @ [LF]) (s @ (m @ [LF]) @ v)"
    by blast
  from find_sub_first [OF this] show ?thesis by simp
qed

section \<open>Push, then pull\<close>

text \<open>A task whose description quotes a metadata block.\<close>

definition quoting_task :: task where
  "quoting_task =
     \<lparr> task_id = 1, title = ''Document the sync format'',
       description = JStr (''Bodies end with <!-- pixelKanban metadata:'' @ [LF] @ ''{}'' @ [LF] @ ''-->''),
       status = ''todo'', priority = JStr ''high'', assignee = IdStr [],
       dueDate = JStr ''2024-03-01'',
       comments = JArr [JObj [(''id'', JNum 1704877200000), (''userId'', JNum 3), (''assigneeId'', JNull),
                              (''text'', JStr ''Please review''), (''createdAt'', JStr ''2024-01-10T09:00:00Z'')]],
       attachments = JArr [],
       createdAt = ''2024-01-10T09:00:00Z'', updatedAt = ''2024-01-10T09:00:00Z'',
       githubIssueNumber = None, githubUrl = None \<rparr>"

text \<open>
  Claim C1 says that push followed by pull gives back the description, priority, due date,
  comments and attachments of every task. For this task it does not: the decoder takes the
  first block of the body, which is the one quoted in the description, and the pulled task
  has an empty description, the priority \<open>medium\<close>, no due date and no comments.
\<close>

theorem push_pull_loses_quoted_metadata:
  "parseTaskBody (Some (formatTaskBody quoting_task)) = Inr (JObj [])
   \<and> fst (pullBoard github_api ''t2''
        (snd (pushBoard github_api ''t1'' \<lparr>tasks = [quoting_task], nextTaskId = 2\<rparr> empty_repo_world)))
     = Inr ([\<lparr> task_id = 1, title = ''Document the sync format'', description = JStr [],
                status = ''todo'', priority = JStr ''medium'', assignee = IdStr [],
                dueDate = JStr [], comments = JArr [], attachments = JArr [],
                createdAt = [], updatedAt = [],
                githubIssueNumber = Some 1, githubUrl = Some [] \<rparr>], 2)"
  by code_simp

text \<open>The same board with a plain description comes back as it was pushed.\<close>

lemma push_pull_plain_task:
  "fst (pullBoard github_api ''t2''
        (snd (pushBoard github_api ''t1''
               \<lparr>tasks = [quoting_task\<lparr>description := JStr ''Bodies end with a metadata block''\<rparr>], nextTaskId = 2\<rparr>
               empty_repo_world)))
     = Inr ([\<lparr> task_id = 1, title = ''Document the sync format'',
                description = JStr ''Bodies end with a metadata block'',
                status = ''todo'', priority = JStr ''high'', assignee = IdStr [],
                dueDate = JStr ''2024-03-01'',
                comments = JArr [JObj [(''id'', JNum 1704877200000), (''userId'', JNum 3), (''assigneeId'', JNull),
                              (''text'', JStr ''Please review''), (''createdAt'', JStr ''2024-01-10T09:00:00Z'')]],
                attachments = JArr [],
                createdAt = [], updatedAt = [],
                githubIssueNumber = Some 1, githubUrl = Some [] \<rparr>], 2)"
  by code_simp

end
